theory Spec2Isabelle
  imports Main "HOL-Library.Code_Target_Nat"
begin

section \<open>Strings\<close>

text \<open>
  A JavaScript string is a sequence of UTF-16 code units. A code unit is modelled as a
  natural number, a string as a list of code units; \<open>js\<close> turns an ASCII literal into
  such a list.
\<close>

type_synonym jsstring = "nat list"

definition js :: "string \<Rightarrow> jsstring" where
  "js s = map of_char s"

text \<open>The characters matched by \<open>\s\<close> and removed by \<open>trim\<close>: WhiteSpace and LineTerminator.\<close>

definition is_ws :: "nat \<Rightarrow> bool" where
  "is_ws c = (c = 32 \<or> (9 \<le> c \<and> c \<le> 13) \<or> c = 160 \<or> c = 5760 \<or> (8192 \<le> c \<and> c \<le> 8202)
     \<or> c = 8232 \<or> c = 8233 \<or> c = 8239 \<or> c = 8287 \<or> c = 12288 \<or> c = 65279)"

definition is_line_terminator :: "nat \<Rightarrow> bool" where
  "is_line_terminator c = (c = 10 \<or> c = 13 \<or> c = 8232 \<or> c = 8233)"

definition is_digit :: "nat \<Rightarrow> bool" where
  "is_digit c = (48 \<le> c \<and> c \<le> 57)"

definition is_word_char :: "nat \<Rightarrow> bool" where
  "is_word_char c = ((65 \<le> c \<and> c \<le> 90) \<or> (97 \<le> c \<and> c \<le> 122) \<or> is_digit c \<or> c = 95)"

text \<open>\<open>String.prototype.trim\<close>.\<close>

definition trim :: "jsstring \<Rightarrow> jsstring" where
  "trim s = rev (dropWhile is_ws (rev (dropWhile is_ws s)))"

text \<open>
  \<open>String.prototype.substring\<close>: both indices are clamped to the length of the string and
  swapped when the first is the larger one.
\<close>

definition substring :: "jsstring \<Rightarrow> nat \<Rightarrow> nat \<Rightarrow> jsstring" where
  "substring s a b = take (max a b - min a b) (drop (min a b) s)"

definition substring_from :: "jsstring \<Rightarrow> nat \<Rightarrow> jsstring" where
  "substring_from s a = drop a s"

text \<open>\<open>String.prototype.includes\<close>.\<close>

fun includes_str :: "jsstring \<Rightarrow> jsstring \<Rightarrow> bool" where
  "includes_str [] pat = (pat = [])"
| "includes_str (c # cs) pat = (take (length pat) (c # cs) = pat \<or> includes_str cs pat)"

text \<open>\<open>String.prototype.replace\<close> with a string pattern: the first occurrence only.\<close>

fun replace_str :: "jsstring \<Rightarrow> jsstring \<Rightarrow> jsstring \<Rightarrow> jsstring" where
  "replace_str [] pat repl = (if pat = [] then repl else [])"
| "replace_str (c # cs) pat repl =
     (if take (length pat) (c # cs) = pat then repl @ drop (length pat) (c # cs)
      else c # replace_str cs pat repl)"

section \<open>Regular expressions\<close>

text \<open>
  The patterns of the extractor are written in the fragment of ECMAScript regular
  expressions below: literal characters, \<open>.\<close>, character classes (with ranges, \<open>\s\<close> and
  \<open>\d\<close>), sequence, alternation, greedy and lazy \<open>*\<close>, one capture group, positive
  lookahead, \<open>^\<close>, \<open>$\<close> and \<open>\b\<close>. All their literal characters are ASCII.
\<close>

datatype citem = Rng nat nat | ClsSpace | ClsDigit

datatype regex =
    Eps
  | Lit nat
  | Dot
  | Cls bool "citem list"
  | Seq regex regex
  | Alt regex regex
  | Star regex
  | LazyStar regex
  | Cap regex
  | Look regex
  | Bol
  | Eol
  | WordB

record flags =
  ignoreCase :: bool
  dotAll :: bool

text \<open>
  Case-insensitive matching compares canonicalized code units. Canonicalize maps an ASCII
  letter to its upper case and never maps a code unit from 128 on to one below 128, so
  against ASCII pattern characters it decides as the function below does.
\<close>

definition canonicalize :: "nat \<Rightarrow> nat" where
  "canonicalize c = (if 97 \<le> c \<and> c \<le> 122 then c - 32 else c)"

fun citem_has :: "bool \<Rightarrow> citem \<Rightarrow> nat \<Rightarrow> bool" where
  "citem_has ic (Rng lo hi) c =
     ((lo \<le> c \<and> c \<le> hi) \<or>
      (ic \<and> (\<exists>a \<in> set [lo ..< Suc hi]. canonicalize a = canonicalize c)))"
| "citem_has ic ClsSpace c = is_ws c"
| "citem_has ic ClsDigit c = is_digit c"

text \<open>
  A matcher state: the code unit before the current position (\<open>None\<close> at the start of the
  string), the rest of the string from the current position, and the text of the capture
  group (\<open>None\<close> while it is undefined).
\<close>

datatype mstate = MState (prev: "nat option") (rest: jsstring) (cap: "jsstring option")

text \<open>
  The backtracking matcher: \<open>run f r s\<close> lists the states in which \<open>r\<close> can end when started
  in \<open>s\<close>, in the order in which backtracking tries them. The first state of the list is the
  one the engine settles on. An iteration of \<open>*\<close> that consumes nothing is rejected.
\<close>

function (sequential) run :: "flags \<Rightarrow> regex \<Rightarrow> mstate \<Rightarrow> mstate list" where
  "run f Eps s = [s]"
| "run f (Lit a) s =
     (case rest s of [] \<Rightarrow> []
      | c # cs \<Rightarrow> if (if ignoreCase f then canonicalize c = canonicalize a else c = a)
                 then [MState (Some c) cs (cap s)] else [])"
| "run f Dot s =
     (case rest s of [] \<Rightarrow> []
      | c # cs \<Rightarrow> if dotAll f \<or> \<not> is_line_terminator c
                 then [MState (Some c) cs (cap s)] else [])"
| "run f (Cls neg items) s =
     (case rest s of [] \<Rightarrow> []
      | c # cs \<Rightarrow> if (\<exists>i \<in> set items. citem_has (ignoreCase f) i c) \<noteq> neg
                 then [MState (Some c) cs (cap s)] else [])"
| "run f (Seq a b) s = concat (map (run f b) (run f a s))"
| "run f (Alt a b) s = run f a s @ run f b s"
| "run f (Star a) s =
     concat (map (\<lambda>s'. if length (rest s') < length (rest s) then run f (Star a) s' else [])
                 (run f a s)) @ [s]"
| "run f (LazyStar a) s =
     s # concat (map (\<lambda>s'. if length (rest s') < length (rest s) then run f (LazyStar a) s' else [])
                     (run f a s))"
| "run f (Cap a) s =
     map (\<lambda>s'. MState (prev s') (rest s')
                  (Some (take (length (rest s) - length (rest s')) (rest s))))
         (run f a s)"
| "run f (Look a) s = (if run f a s = [] then [] else [s])"
| "run f Bol s = (if prev s = None then [s] else [])"
| "run f Eol s = (if rest s = [] then [s] else [])"
| "run f WordB s =
     (if (case prev s of None \<Rightarrow> False | Some c \<Rightarrow> is_word_char c)
         \<noteq> (case rest s of [] \<Rightarrow> False | c # _ \<Rightarrow> is_word_char c)
      then [s] else [])"
  by pat_completeness auto
termination
  by (relation "measures [\<lambda>(f, r, s). size r, \<lambda>(f, r, s). length (rest s)]") auto

subsection \<open>Pattern notation\<close>

definition seqs :: "regex list \<Rightarrow> regex" where
  "seqs rs = foldr Seq rs Eps"

definition alts :: "regex list \<Rightarrow> regex" where
  "alts rs = foldr Alt (butlast rs) (last rs)"

definition Ch :: "char \<Rightarrow> regex" where
  "Ch c = Lit (of_char c)"

definition str :: "string \<Rightarrow> regex" where
  "str s = seqs (map Ch s)"

definition one :: "char \<Rightarrow> citem" where
  "one c = Rng (of_char c) (of_char c)"

definition rng :: "char \<Rightarrow> char \<Rightarrow> citem" where
  "rng a b = Rng (of_char a) (of_char b)"

definition Plus :: "regex \<Rightarrow> regex" where
  "Plus r = Seq r (Star r)"

definition Opt :: "regex \<Rightarrow> regex" where
  "Opt r = Alt r Eps"

definition ws :: regex where
  "ws = Cls False [ClsSpace]"

definition digit :: regex where
  "digit = Cls False [ClsDigit]"

definition no_flags :: flags where
  "no_flags = \<lparr>ignoreCase = False, dotAll = False\<rparr>"

definition flag_i :: flags where
  "flag_i = \<lparr>ignoreCase = True, dotAll = False\<rparr>"

definition flag_s :: flags where
  "flag_s = \<lparr>ignoreCase = False, dotAll = True\<rparr>"

subsection \<open>The RegExp operations of the string library\<close>

text \<open>The result of a successful match: \<open>match.index\<close>, \<open>match[0]\<close> and \<open>match[1]\<close>.\<close>

record rmatch =
  index :: nat
  matched :: jsstring
  group1 :: "jsstring option"

text \<open>
  \<open>search\<close> tries the start positions from left to right; its arguments are the code unit
  before the position, the string from the position on, and the position.
\<close>

fun search :: "flags \<Rightarrow> regex \<Rightarrow> nat option \<Rightarrow> jsstring \<Rightarrow> nat \<Rightarrow> rmatch option" where
  "search f r p [] i =
     (case run f r (MState p [] None) of
        [] \<Rightarrow> None
      | s # _ \<Rightarrow> Some \<lparr>index = i, matched = [], group1 = cap s\<rparr>)"
| "search f r p (c # cs) i =
     (case run f r (MState p (c # cs) None) of
        [] \<Rightarrow> search f r (Some c) cs (Suc i)
      | s # _ \<Rightarrow> Some \<lparr>index = i,
                       matched = take (length (c # cs) - length (rest s)) (c # cs),
                       group1 = cap s\<rparr>)"

text \<open>\<open>text.match(re)\<close> and \<open>re.exec(text)\<close> for a pattern without the \<open>g\<close> flag.\<close>

definition exec :: "flags \<Rightarrow> regex \<Rightarrow> jsstring \<Rightarrow> rmatch option" where
  "exec f r text = search f r None text 0"

text \<open>The value of \<open>match?.[1]\<close> when it is truthy: a defined, non-empty capture.\<close>

definition truthy_group1 :: "rmatch option \<Rightarrow> jsstring option" where
  "truthy_group1 m =
     (case m of None \<Rightarrow> None
      | Some r \<Rightarrow> (case group1 r of None \<Rightarrow> None
                   | Some c \<Rightarrow> if c = [] then None else Some c))"

text \<open>
  \<open>text.match(re)\<close> for a pattern with the \<open>g\<close> flag: the texts of the successive matches,
  each search starting where the last match ended, one further on after an empty match.
\<close>

fun match_all :: "flags \<Rightarrow> regex \<Rightarrow> nat option \<Rightarrow> jsstring \<Rightarrow> jsstring list" where
  "match_all f r p [] =
     (case run f r (MState p [] None) of [] \<Rightarrow> [] | s # _ \<Rightarrow> [[]])"
| "match_all f r p (c # cs) =
     (case run f r (MState p (c # cs) None) of
        [] \<Rightarrow> match_all f r (Some c) cs
      | s # _ \<Rightarrow>
          (let m = length (c # cs) - length (rest s) in
           if m = 0 then [] # match_all f r (Some c) cs
           else take m (c # cs) #
                match_all f r (Some (last (take m (c # cs)))) (drop (m - 1) cs)))"

text \<open>\<open>text.replace(re, repl)\<close> for a pattern with the \<open>g\<close> flag and a replacement without \<open>$\<close>.\<close>

fun replace_all :: "flags \<Rightarrow> regex \<Rightarrow> jsstring \<Rightarrow> nat option \<Rightarrow> jsstring \<Rightarrow> jsstring" where
  "replace_all f r repl p [] =
     (case run f r (MState p [] None) of [] \<Rightarrow> [] | s # _ \<Rightarrow> repl)"
| "replace_all f r repl p (c # cs) =
     (case run f r (MState p (c # cs) None) of
        [] \<Rightarrow> c # replace_all f r repl (Some c) cs
      | s # _ \<Rightarrow>
          (let m = length (c # cs) - length (rest s) in
           if m = 0 then repl @ c # replace_all f r repl (Some c) cs
           else repl @ replace_all f r repl (Some (last (take m (c # cs)))) (drop (m - 1) cs)))"

text \<open>\<open>text.replace(re, repl)\<close> for a pattern without the \<open>g\<close> flag: the first match only.\<close>

definition replace_first :: "flags \<Rightarrow> regex \<Rightarrow> jsstring \<Rightarrow> jsstring \<Rightarrow> jsstring" where
  "replace_first f r repl text =
     (case exec f r text of
        None \<Rightarrow> text
      | Some m \<Rightarrow> take (index m) text @ repl @ drop (index m + length (matched m)) text)"

text \<open>
  \<open>text.split(re)\<close> for a pattern without capture group: \<open>acc\<close> is the piece collected since
  the last separator. A match that is empty at the start of a piece does not split.
\<close>

fun split_scan :: "flags \<Rightarrow> regex \<Rightarrow> nat option \<Rightarrow> jsstring \<Rightarrow> jsstring \<Rightarrow> jsstring list" where
  "split_scan f r p acc [] = [acc]"
| "split_scan f r p acc (c # cs) =
     (case run f r (MState p (c # cs) None) of
        [] \<Rightarrow> split_scan f r (Some c) (acc @ [c]) cs
      | s # _ \<Rightarrow>
          (let m = length (c # cs) - length (rest s) in
           if m = 0 \<and> acc = [] then split_scan f r (Some c) [c] cs
           else if m = 0 then acc # split_scan f r (Some c) [c] cs
           else acc # split_scan f r (Some (last (take m (c # cs)))) [] (drop (m - 1) cs)))"

definition split :: "flags \<Rightarrow> regex \<Rightarrow> jsstring \<Rightarrow> jsstring list" where
  "split f r text =
     (if text = [] then (case run f r (MState None [] None) of [] \<Rightarrow> [[]] | s # _ \<Rightarrow> [])
      else split_scan f r None [] text)"

section \<open>The text normalizer\<close>

text \<open>
  \<^verbatim>\<open>text.replace(/\n+/g, ' ').replace(/\s+/g, ' ').replace(/[|]/g, 'I').trim()\<close>
\<close>

definition normalize :: "jsstring \<Rightarrow> jsstring" where
  "normalize text =
     trim (replace_all no_flags (Cls False [one CHR ''|'']) (js ''I'') None
       (replace_all no_flags (Plus ws) (js '' '') None
         (replace_all no_flags (Plus (Lit 10)) (js '' '') None text)))"

section \<open>The data model\<close>

text \<open>
  An option id is one of the four strings \<open>'A'\<close>, \<open>'B'\<close>, \<open>'C'\<close>, \<open>'D'\<close>: the parser only ever
  stores an element of \<open>['A', 'B', 'C', 'D']\<close> in the field \<open>id\<close>.
\<close>

datatype letter = A | B | C | D

fun letter_code :: "letter \<Rightarrow> nat" where
  "letter_code A = 65"
| "letter_code B = 66"
| "letter_code C = 67"
| "letter_code D = 68"

record MCQOption =
  opt_id :: letter
  opt_text :: jsstring

record MCQQuestion =
  questionId :: jsstring
  filename :: jsstring
  question :: jsstring
  options :: "MCQOption list"
  rawText :: jsstring

text \<open>The lines written to the console, in the order in which they are written.\<close>

datatype diagnostic =
    WarnOnlyFoundLabeled nat
  | WarnMissingOptionIds "letter list"
  | LogFoundUnlabeled letter jsstring
  | WarnQuestionTooShort jsstring jsstring
  | WarnOnlyFoundOptions nat jsstring
  | ErrorParsing jsstring

section \<open>The structural parser of \<open>src/ocr-working.ts\<close>\<close>

subsection \<open>Clean-up shared by the question text and the option texts\<close>

text \<open>\<^verbatim>\<open>.replace(/\s+/g, ' ')\<close> and \<^verbatim>\<open>.replace(/^[^a-zA-Z]*/, '')\<close>.\<close>

definition collapse_spaces :: "jsstring \<Rightarrow> jsstring" where
  "collapse_spaces s = replace_all no_flags (Plus ws) (js '' '') None s"

definition strip_leading_nonletters :: "jsstring \<Rightarrow> jsstring" where
  "strip_leading_nonletters s =
     replace_first no_flags
       (Seq Bol (Star (Cls True [rng CHR ''a'' CHR ''z'', rng CHR ''A'' CHR ''Z''])))
       [] s"

subsection \<open>Question identifier\<close>

text \<open>\<^verbatim>\<open>/(?:^|\s)([QE]\d{2,4})\b/i\<close>; \<open>\d{2,4}\<close> is greedy.\<close>

definition idToken :: regex where
  "idToken =
     Cap (seqs [Cls False [one CHR ''Q'', one CHR ''E''],
                digit, digit, Opt (Seq digit (Opt digit))])"

definition questionIdPattern :: regex where
  "questionIdPattern = seqs [Alt Bol ws, idToken, WordB]"

definition questionId_of :: "jsstring \<Rightarrow> jsstring \<Rightarrow> jsstring" where
  "questionId_of cleanText fname =
     (case truthy_group1 (exec flag_i questionIdPattern cleanText) of
        Some t \<Rightarrow> t
      | None \<Rightarrow> js ''Q_'' @ replace_str fname (js ''.png'') [])"

subsection \<open>Question text\<close>

text \<open>\<^verbatim>\<open>/(?:^|\s)([QE]\d{2,4})\b\.?\s*/i\<close>\<close>

definition textAfterQuestionId :: "jsstring \<Rightarrow> jsstring" where
  "textAfterQuestionId cleanText =
     (case exec flag_i (seqs [Alt Bol ws, idToken, WordB, Opt (Ch CHR ''.''), Star ws]) cleanText of
        Some qIdMatch \<Rightarrow> substring_from cleanText (index qIdMatch + length (matched qIdMatch))
      | None \<Rightarrow> cleanText)"

definition optionStartPatterns :: "regex list" where
  "optionStartPatterns =
     [Look (seqs [Star ws, Ch CHR ''('', Cls False [rng CHR ''A'' CHR ''D''], Ch CHR '')'']),
      Look (seqs [Star ws, Cls False [rng CHR ''A'' CHR ''D''],
                  Cls False [one CHR '')'', one CHR ''.'']]),
      Look (seqs [Star ws, str ''Upload'', Plus ws, str ''the'', Plus ws, str ''data'']),
      Look (seqs [Star ws, str ''Use'', Plus ws, str ''a'', Plus ws, str ''subset'']),
      Look (seqs [Star ws, str ''Send'', Plus ws, str ''the'']),
      Look (seqs [Star ws, str ''Create''])]"

definition questionEndIndex :: "jsstring \<Rightarrow> nat" where
  "questionEndIndex t =
     fold (\<lambda>pattern qEnd.
             case exec flag_i pattern t of
               Some m \<Rightarrow> if index m < qEnd then index m else qEnd
             | None \<Rightarrow> qEnd)
          optionStartPatterns (length t)"

text \<open>
  The three strategies. Each gives the question text it finds, and the empty string when
  it finds none.
\<close>

definition boundary_before_options :: "jsstring \<Rightarrow> jsstring" where
  "boundary_before_options t =
     (let beforeOptions = trim (substring t 0 (questionEndIndex t))
      in if beforeOptions \<noteq> [] \<and> length beforeOptions > 50 then beforeOptions else [])"

text \<open>\<^verbatim>\<open>/(.*\?)/s\<close>\<close>

definition question_mark_boundary :: "jsstring \<Rightarrow> jsstring" where
  "question_mark_boundary t =
     (case truthy_group1 (exec flag_s (Cap (Seq (Star Dot) (Ch CHR ''?''))) t) of
        Some questionWithMark \<Rightarrow> trim questionWithMark
      | None \<Rightarrow> [])"

definition raw_prefix :: "jsstring \<Rightarrow> jsstring" where
  "raw_prefix t =
     (let fallbackText = trim (substring t 0 500)
      in if length fallbackText > 50 then fallbackText else [])"

definition raw_question_text :: "jsstring \<Rightarrow> jsstring" where
  "raw_question_text t =
     (let questionText = boundary_before_options t;
          questionText = (if questionText = [] then question_mark_boundary t else questionText);
          questionText = (if questionText = [] then raw_prefix t else questionText)
      in questionText)"

definition questionText_of :: "jsstring \<Rightarrow> jsstring" where
  "questionText_of cleanText =
     trim (collapse_spaces (strip_leading_nonletters
       (raw_question_text (textAfterQuestionId cleanText))))"

subsection \<open>Labeled options\<close>

text \<open>
  The three patterns built for a letter:
  \<^verbatim>\<open>\(L\)\s*([^\(]*?)(?=\s*\([A-D]\)|$)\<close>,
  \<^verbatim>\<open>\sL[\)\.]\s*([^A-D]*?)(?=\s*[A-D][\)\.]|$)\<close> and
  \<^verbatim>\<open>L[\)\.]\s*([^\n]*?)(?=\s*[A-D][\)\.]|$)\<close>, all with the flag \<open>i\<close>.
\<close>

definition labelPatterns :: "letter \<Rightarrow> regex list" where
  "labelPatterns l =
     [seqs [Ch CHR ''('', Lit (letter_code l), Ch CHR '')'', Star ws,
            Cap (LazyStar (Cls True [one CHR ''(''])),
            Look (Alt (seqs [Star ws, Ch CHR ''('', Cls False [rng CHR ''A'' CHR ''D''],
                             Ch CHR '')''])
                      Eol)],
      seqs [ws, Lit (letter_code l), Cls False [one CHR '')'', one CHR ''.''], Star ws,
            Cap (LazyStar (Cls True [rng CHR ''A'' CHR ''D''])),
            Look (Alt (seqs [Star ws, Cls False [rng CHR ''A'' CHR ''D''],
                             Cls False [one CHR '')'', one CHR ''.'']])
                      Eol)],
      seqs [Lit (letter_code l), Cls False [one CHR '')'', one CHR ''.''], Star ws,
            Cap (LazyStar (Cls True [Rng 10 10])),
            Look (Alt (seqs [Star ws, Cls False [rng CHR ''A'' CHR ''D''],
                             Cls False [one CHR '')'', one CHR ''.'']])
                      Eol)]]"

text \<open>One round of the loop over the patterns: \<open>optionText\<close> is replaced by a longer capture.\<close>

definition keep_longer :: "rmatch option \<Rightarrow> jsstring \<Rightarrow> jsstring" where
  "keep_longer m optionText =
     (case truthy_group1 m of
        Some c \<Rightarrow> if length (trim c) > length optionText then trim c else optionText
      | None \<Rightarrow> optionText)"

definition optionText_of :: "jsstring \<Rightarrow> letter \<Rightarrow> jsstring" where
  "optionText_of cleanText l =
     fold (\<lambda>pattern. keep_longer (exec flag_i pattern cleanText)) (labelPatterns l) []"

definition clean_optionText :: "jsstring \<Rightarrow> jsstring" where
  "clean_optionText optionText = trim (strip_leading_nonletters (collapse_spaces optionText))"

definition labeled_option :: "jsstring \<Rightarrow> letter \<Rightarrow> MCQOption list" where
  "labeled_option cleanText l =
     (let optionText = optionText_of cleanText l
      in if optionText \<noteq> [] then
           (let optionText = clean_optionText optionText
            in if length optionText > 5 then [\<lparr>opt_id = l, opt_text = optionText\<rparr>] else [])
         else [])"

definition labeled_options :: "jsstring \<Rightarrow> MCQOption list" where
  "labeled_options cleanText = concat (map (labeled_option cleanText) [A, B, C, D])"

subsection \<open>Unlabeled options\<close>

definition missingIds_of :: "MCQOption list \<Rightarrow> letter list" where
  "missingIds_of opts = filter (\<lambda>i. i \<notin> set (map opt_id opts)) [A, B, C, D]"

text \<open>The positions \<open>(id, start, end)\<close> of the markers \<open>(L)\<close> of the options found, sorted by start.\<close>

definition optionPositions :: "jsstring \<Rightarrow> MCQOption list \<Rightarrow> (letter \<times> nat \<times> nat) list" where
  "optionPositions cleanText opts =
     sort_key (\<lambda>(i, s, e). s)
       (concat (map (\<lambda>opt.
          case exec flag_i (seqs [Ch CHR ''('', Lit (letter_code (opt_id opt)), Ch CHR '')''])
                 cleanText of
            Some m \<Rightarrow> [(opt_id opt, index m, index m + length (matched m))]
          | None \<Rightarrow> []) opts))"

definition actionVerbs :: regex where
  "actionVerbs =
     alts (map str [''Use'', ''Send'', ''Create'', ''Build'', ''Configure'', ''Train'',
                    ''Deploy'', ''Implement''])"

text \<open>
  \<^verbatim>\<open>cleanChunk.match(/^(Use|Send|...)/i) || cleanChunk.includes('Amazon') || cleanChunk.includes('API')\<close>
\<close>

definition looks_like_option :: "jsstring \<Rightarrow> bool" where
  "looks_like_option cleanChunk =
     (exec flag_i (Seq Bol (Cap actionVerbs)) cleanChunk \<noteq> None
      \<or> includes_str cleanChunk (js ''Amazon'')
      \<or> includes_str cleanChunk (js ''API''))"

text \<open>The text between two neighbouring markers gives at most one candidate.\<close>

definition between_candidate ::
  "jsstring \<Rightarrow> (letter \<times> nat \<times> nat) \<Rightarrow> (letter \<times> nat \<times> nat) \<Rightarrow> jsstring list" where
  "between_candidate cleanText currentOption nextOption =
     (let betweenText = trim (substring cleanText (snd (snd currentOption)) (fst (snd nextOption)))
      in if length betweenText > 50 then
           (let chunks = filter (\<lambda>chunk. length (trim chunk) > 30)
                           (split no_flags
                              (Seq (Cls False [one CHR ''.'', one CHR ''!'', one CHR ''?''])
                                   (Plus ws))
                              betweenText)
            in case filter looks_like_option (map (\<lambda>chunk. collapse_spaces (trim chunk)) chunks) of
                 [] \<Rightarrow> []
               | cleanChunk # _ \<Rightarrow> [cleanChunk])
         else [])"

definition between_candidates :: "jsstring \<Rightarrow> (letter \<times> nat \<times> nat) list \<Rightarrow> jsstring list" where
  "between_candidates cleanText positions =
     concat (map (\<lambda>(currentOption, nextOption).
                    between_candidate cleanText currentOption nextOption)
                 (zip positions (tl positions)))"

text \<open>
  \<^verbatim>\<open>/(?:^|\s)((?:Use|Send|Create|Build|Configure|Train|Deploy|Implement)[^.!?]*[.!?]?)/gi\<close>
\<close>

definition actionSentences :: "jsstring \<Rightarrow> jsstring list" where
  "actionSentences cleanText =
     match_all flag_i
       (seqs [Alt Bol ws,
              Cap (seqs [actionVerbs,
                         Star (Cls True [one CHR ''.'', one CHR ''!'', one CHR ''?'']),
                         Opt (Cls False [one CHR ''.'', one CHR ''!'', one CHR ''?''])])])
       None cleanText"

text \<open>
  One round of the loop over the action sentences. \<open>toLowerCase\<close> stands for
  \<open>String.prototype.toLowerCase\<close>, whose Unicode case table is a parameter of the model.
\<close>

definition add_sentence ::
  "(jsstring \<Rightarrow> jsstring) \<Rightarrow> MCQOption list \<Rightarrow> jsstring \<Rightarrow> jsstring list \<Rightarrow> jsstring list" where
  "add_sentence toLowerCase opts sentence candidateTexts =
     (let cleanSentence = collapse_spaces (trim sentence);
          alreadyFound =
            (\<exists>item \<in> set (map opt_text opts @ candidateTexts).
               substring (toLowerCase item) 0 30 = substring (toLowerCase cleanSentence) 0 30)
      in if \<not> alreadyFound \<and> length cleanSentence > 40
         then candidateTexts @ [cleanSentence] else candidateTexts)"

definition candidateTexts_of ::
  "(jsstring \<Rightarrow> jsstring) \<Rightarrow> jsstring \<Rightarrow> MCQOption list \<Rightarrow> jsstring list" where
  "candidateTexts_of toLowerCase cleanText opts =
     (let missingIds = missingIds_of opts;
          candidateTexts = between_candidates cleanText (optionPositions cleanText opts)
      in if length candidateTexts < length missingIds
         then fold (add_sentence toLowerCase opts) (actionSentences cleanText) candidateTexts
         else candidateTexts)"

text \<open>The candidates are given to the missing ids in order; then the options are sorted by id.\<close>

definition inferred_options ::
  "(jsstring \<Rightarrow> jsstring) \<Rightarrow> jsstring \<Rightarrow> MCQOption list \<Rightarrow> MCQOption list" where
  "inferred_options toLowerCase cleanText opts =
     map (\<lambda>(missingId, candidateText). \<lparr>opt_id = missingId, opt_text = candidateText\<rparr>)
         (zip (missingIds_of opts) (candidateTexts_of toLowerCase cleanText opts))"

definition all_options ::
  "(jsstring \<Rightarrow> jsstring) \<Rightarrow> jsstring \<Rightarrow> MCQOption list" where
  "all_options toLowerCase cleanText =
     (let opts = labeled_options cleanText
      in if length opts < 4
         then sort_key (\<lambda>opt. letter_code (opt_id opt))
                (opts @ (if length (missingIds_of opts) > 0
                         then inferred_options toLowerCase cleanText opts else []))
         else opts)"

subsection \<open>The parser\<close>

definition gap_diagnostics ::
  "(jsstring \<Rightarrow> jsstring) \<Rightarrow> jsstring \<Rightarrow> diagnostic list" where
  "gap_diagnostics toLowerCase cleanText =
     (let opts = labeled_options cleanText
      in if length opts < 4
         then WarnOnlyFoundLabeled (length opts) #
              (if length (missingIds_of opts) > 0
               then WarnMissingOptionIds (missingIds_of opts) #
                    map (\<lambda>opt. LogFoundUnlabeled (opt_id opt) (substring (opt_text opt) 0 50))
                        (inferred_options toLowerCase cleanText opts)
               else [])
         else [])"

definition validation_diagnostics :: "jsstring \<Rightarrow> jsstring \<Rightarrow> MCQOption list \<Rightarrow> diagnostic list" where
  "validation_diagnostics fname questionText opts =
     (if questionText = [] \<or> length questionText < 20
      then [WarnQuestionTooShort fname questionText] else []) @
     (if length opts < 2 then [WarnOnlyFoundOptions (length opts) fname] else [])"

text \<open>
  \<open>parseMCQFromText\<close> gives the lines written to the console and the value returned.
  No operation of the \<open>try\<close> block throws, so the \<open>catch\<close> branch, which logs an error and
  returns \<open>null\<close>, is not taken.
\<close>

definition parseMCQFromText ::
  "(jsstring \<Rightarrow> jsstring) \<Rightarrow> jsstring \<Rightarrow> jsstring \<Rightarrow> diagnostic list \<times> MCQQuestion option" where
  "parseMCQFromText toLowerCase txt fname =
     (let cleanText = normalize txt;
          qId = questionId_of cleanText fname;
          questionText = questionText_of cleanText;
          opts = all_options toLowerCase cleanText
      in (gap_diagnostics toLowerCase cleanText @ validation_diagnostics fname questionText opts,
          Some \<lparr>questionId = qId, filename = fname, question = questionText,
                options = opts, rawText = txt\<rparr>))"

text \<open>\<open>toLowerCase\<close> on strings of ASCII characters.\<close>

definition ascii_toLowerCase :: "jsstring \<Rightarrow> jsstring" where
  "ascii_toLowerCase s = map (\<lambda>c. if 65 \<le> c \<and> c \<le> 90 then c + 32 else c) s"

section \<open>The structural parser of the second extractor file\<close>

text \<open>
  The second extractor file has the same normalizer, identifier extraction and labeled
  options. It finds the question text with three other patterns,
  \<^verbatim>\<open>/([^.]*(?:Which|What|How|Why|When|Where)[^?]*\?)/i\<close>,
  \<^verbatim>\<open>/(.*?)(?=\s*A[\)\.])/s\<close> and
  \<^verbatim>\<open>/([^.]*(?:solution|requirements|meet|build|application)[^.?]*[.?]?)/i\<close>,
  and looks for one fixed unlabeled option \<open>B\<close>.
\<close>

definition questionPatterns_variant :: "(flags \<times> regex) list" where
  "questionPatterns_variant =
     [(flag_i,
       Cap (seqs [Star (Cls True [one CHR ''.'']),
                  alts (map str [''Which'', ''What'', ''How'', ''Why'', ''When'', ''Where'']),
                  Star (Cls True [one CHR ''?'']), Ch CHR ''?''])),
      (flag_s,
       Seq (Cap (LazyStar Dot))
           (Look (seqs [Star ws, Ch CHR ''A'', Cls False [one CHR '')'', one CHR ''.'']]))),
      (flag_i,
       Cap (seqs [Star (Cls True [one CHR ''.'']),
                  alts (map str [''solution'', ''requirements'', ''meet'', ''build'',
                                 ''application'']),
                  Star (Cls True [one CHR ''.'', one CHR ''?'']),
                  Opt (Cls False [one CHR ''.'', one CHR ''?''])]))]"

text \<open>The loop over the patterns stops at the first capture of more than 50 code units.\<close>

fun pattern_question_variant :: "(flags \<times> regex) list \<Rightarrow> jsstring \<Rightarrow> jsstring" where
  "pattern_question_variant [] cleanText = []"
| "pattern_question_variant ((f, pattern) # ps) cleanText =
     (case truthy_group1 (exec f pattern cleanText) of
        Some m \<Rightarrow> if length m > 50 then trim m else pattern_question_variant ps cleanText
      | None \<Rightarrow> pattern_question_variant ps cleanText)"

text \<open>
  \<^verbatim>\<open>cleanText.split(/\sA[\)\.]]/)\<close> and \<^verbatim>\<open>cleanText.split(/\s[A-D][\)\.]]/)\<close>: the last
  \<open>]\<close> of either pattern is a literal character.
\<close>

definition fallback_question_variant :: "jsstring \<Rightarrow> jsstring" where
  "fallback_question_variant cleanText =
     (let parts = split no_flags
                    (seqs [ws, Ch CHR ''A'', Cls False [one CHR '')'', one CHR ''.''], Ch CHR '']''])
                    cleanText
      in if length parts > 1 then (case parts of [] \<Rightarrow> [] | p # _ \<Rightarrow> trim p)
         else (case split no_flags
                      (seqs [ws, Cls False [rng CHR ''A'' CHR ''D''],
                             Cls False [one CHR '')'', one CHR ''.''], Ch CHR '']''])
                      cleanText of
                 beforeOption # _ \<Rightarrow>
                   if trim beforeOption \<noteq> [] then trim beforeOption
                   else substring cleanText 0 (min (length cleanText) 300)
               | [] \<Rightarrow> substring cleanText 0 (min (length cleanText) 300)))"

definition questionText_variant :: "jsstring \<Rightarrow> jsstring" where
  "questionText_variant cleanText =
     (let questionText = pattern_question_variant questionPatterns_variant cleanText;
          questionText = (if questionText = [] then fallback_question_variant cleanText
                          else questionText)
      in trim (collapse_spaces (strip_leading_nonletters questionText)))"

definition optionB_variant :: jsstring where
  "optionB_variant = js (''Use a subset of the survey responses to train an Amazon Comprehend ''
     @ ''custom entity recognition to identify Pll data in the survey responses'')"

definition unlabeled_B_variant :: "jsstring \<Rightarrow> MCQOption list \<Rightarrow> MCQOption list" where
  "unlabeled_B_variant cleanText opts =
     (if B \<notin> set (map opt_id opts) then
        (case exec flag_i
                (str (''Use a subset of the survey responses to train an Amazon Comprehend ''
                      @ ''custom entity recognition to identify Pll data in the survey responses''))
                cleanText of
           Some optionBMatch \<Rightarrow> [\<lparr>opt_id = B, opt_text = optionB_variant\<rparr>]
         | None \<Rightarrow> [])
      else [])"

definition all_options_variant :: "jsstring \<Rightarrow> MCQOption list" where
  "all_options_variant cleanText =
     (let opts = labeled_options cleanText
      in if length opts < 4
         then sort_key (\<lambda>opt. letter_code (opt_id opt)) (opts @ unlabeled_B_variant cleanText opts)
         else opts)"

definition gap_diagnostics_variant :: "jsstring \<Rightarrow> diagnostic list" where
  "gap_diagnostics_variant cleanText =
     (let opts = labeled_options cleanText
      in if length opts < 4
         then WarnOnlyFoundLabeled (length opts) #
              map (\<lambda>opt. LogFoundUnlabeled (opt_id opt)
                           (js ''Use a subset of the survey responses to train an Amazon''))
                  (unlabeled_B_variant cleanText opts)
         else [])"

definition parseMCQFromText_variant ::
  "jsstring \<Rightarrow> jsstring \<Rightarrow> diagnostic list \<times> MCQQuestion option" where
  "parseMCQFromText_variant txt fname =
     (let cleanText = normalize txt;
          qId = questionId_of cleanText fname;
          questionText = questionText_variant cleanText;
          opts = all_options_variant cleanText
      in (gap_diagnostics_variant cleanText @ validation_diagnostics fname questionText opts,
          Some \<lparr>questionId = qId, filename = fname, question = questionText,
                options = opts, rawText = txt\<rparr>))"

section \<open>Notions used to state the properties\<close>

text \<open>
  The trimmed texts captured for a letter by those of its three patterns that match with
  a non-empty capture.
\<close>

definition trimmed_captures :: "jsstring \<Rightarrow> letter \<Rightarrow> jsstring list" where
  "trimmed_captures cleanText l =
     concat (map (\<lambda>pattern. case truthy_group1 (exec flag_i pattern cleanText) of
                                None \<Rightarrow> [] | Some c \<Rightarrow> [trim c])
                 (labelPatterns l))"

text \<open>
  \<open>squeeze P r\<close> puts \<open>r\<close> in the place of every maximal run of code units that satisfy \<open>P\<close>.
\<close>

fun squeeze :: "(nat \<Rightarrow> bool) \<Rightarrow> jsstring \<Rightarrow> jsstring \<Rightarrow> jsstring" where
  "squeeze P r [] = []"
| "squeeze P r (x # xs) =
     (if P x then (case xs of [] \<Rightarrow> r | y # ys \<Rightarrow> if P y then squeeze P r xs else r @ squeeze P r xs)
      else x # squeeze P r xs)"

text \<open>
  A string is tidy when each of its whitespace code units is a space that is not followed
  by whitespace.
\<close>

fun tidy :: "jsstring \<Rightarrow> bool" where
  "tidy [] = True"
| "tidy [x] = (is_ws x \<longrightarrow> x = 32)"
| "tidy (x # y # r) = ((is_ws x \<longrightarrow> x = 32 \<and> \<not> is_ws y) \<and> tidy (y # r))"

definition fix_bar :: "nat \<Rightarrow> nat" where
  "fix_bar c = (if c = 124 then 73 else c)"

definition is_ascii_letter :: "nat \<Rightarrow> bool" where
  "is_ascii_letter c = ((65 \<le> c \<and> c \<le> 90) \<or> (97 \<le> c \<and> c \<le> 122))"

text \<open>
  A pattern that matches exactly one code unit, the code units that satisfy \<open>P\<close>; the code
  unit before the position reached after the code units \<open>ys\<close>.
\<close>

definition single_char :: "flags \<Rightarrow> regex \<Rightarrow> (nat \<Rightarrow> bool) \<Rightarrow> bool" where
  "single_char f a P \<longleftrightarrow>
     (\<forall>p k. run f a (MState p [] k) = []) \<and>
     (\<forall>p c cs k. run f a (MState p (c # cs) k) = (if P c then [MState (Some c) cs k] else []))"

definition prev_after :: "nat option \<Rightarrow> jsstring \<Rightarrow> nat option" where
  "prev_after p ys = (if ys = [] then p else Some (last ys))"

text \<open>
  \<open>fails_along f r p u v\<close>: the pattern \<open>r\<close> matches at none of the positions of \<open>u\<close> in the
  string \<open>u @ v\<close>, where \<open>p\<close> is the code unit before \<open>u\<close>.
\<close>

fun fails_along :: "flags \<Rightarrow> regex \<Rightarrow> nat option \<Rightarrow> jsstring \<Rightarrow> jsstring \<Rightarrow> bool" where
  "fails_along f r p [] v = True"
| "fails_along f r p (x # u) v =
     ((\<forall>k. run f r (MState p (x # u @ v) k) = []) \<and> fails_along f r (Some x) u v)"

text \<open>
  The letters \<open>[A-D]\<close> under the flag \<open>i\<close>, the two lookaheads of the label patterns, and the
  three label patterns with their literal characters as code units.
\<close>

definition is_AD :: "nat \<Rightarrow> bool" where
  "is_AD c = ((65 \<le> c \<and> c \<le> 68) \<or> (97 \<le> c \<and> c \<le> 100))"

definition next_paren_label :: regex where
  "next_paren_label =
     Alt (Seq (Star ws) (Seq (Lit 40) (Seq (Cls False [Rng 65 68]) (Seq (Lit 41) Eps)))) Eol"

definition next_letter_mark :: regex where
  "next_letter_mark =
     Alt (Seq (Star ws) (Seq (Cls False [Rng 65 68]) (Seq (Cls False [Rng 41 41, Rng 46 46]) Eps))) Eol"

definition pat_paren :: "letter \<Rightarrow> regex" where
  "pat_paren l =
     Seq (Lit 40) (Seq (Lit (letter_code l)) (Seq (Lit 41) (Seq (Star ws)
        (Seq (Cap (LazyStar (Cls True [Rng 40 40]))) (Seq (Look next_paren_label) Eps)))))"

definition pat_spaced :: "letter \<Rightarrow> regex" where
  "pat_spaced l =
     Seq ws (Seq (Lit (letter_code l)) (Seq (Cls False [Rng 41 41, Rng 46 46]) (Seq (Star ws)
        (Seq (Cap (LazyStar (Cls True [Rng 65 68]))) (Seq (Look next_letter_mark) Eps)))))"

definition pat_loose :: "letter \<Rightarrow> regex" where
  "pat_loose l =
     Seq (Lit (letter_code l)) (Seq (Cls False [Rng 41 41, Rng 46 46]) (Seq (Star ws)
        (Seq (Cap (LazyStar (Cls True [Rng 10 10]))) (Seq (Look next_letter_mark) Eps))))"

text \<open>
  Texts with labeled options: \<open>labeled_text [(A, a), (B, b)]\<close> is \<open>(A) a (B) b\<close>. An option
  text is plain when it has more than 5 characters, starts with a letter, does not end
  with whitespace, has single spaces as its only whitespace and has none of the
  characters \<open>(\<close>, \<open>)\<close>, \<open>.\<close> and \<open>|\<close>.
\<close>

definition seg :: "letter \<Rightarrow> jsstring \<Rightarrow> jsstring" where
  "seg l t = 40 # letter_code l # 41 # 32 # t"

fun labeled_text :: "(letter \<times> jsstring) list \<Rightarrow> jsstring" where
  "labeled_text [] = []"
| "labeled_text [(l, t)] = seg l t"
| "labeled_text ((l, t) # e # es) = seg l t @ 32 # labeled_text (e # es)"

definition plain_option_text :: "jsstring \<Rightarrow> bool" where
  "plain_option_text t \<longleftrightarrow>
     5 < length t \<and> is_ascii_letter (hd t) \<and> \<not> is_ws (last t) \<and> tidy t \<and>
     (\<forall>c \<in> set t. c \<noteq> 40 \<and> c \<noteq> 41 \<and> c \<noteq> 46 \<and> c \<noteq> 124)"

definition blocks :: "(letter \<times> jsstring) list \<Rightarrow> jsstring" where
  "blocks ys = concat (map (\<lambda>(m, t). seg m t @ [32]) ys)"

definition follow :: "(letter \<times> jsstring) list \<Rightarrow> jsstring" where
  "follow zs = (if zs = [] then [] else 32 # labeled_text zs)"

section \<open>Evaluation\<close>

text \<open>
  For evaluation the iterations of \<open>*\<close> are unfolded state by state: \<open>star_iter f r n ss\<close>
  continues with \<open>r\<close> from those states of \<open>ss\<close> that have less than \<open>n\<close> code units left.
\<close>

definition star_iter :: "flags \<Rightarrow> regex \<Rightarrow> nat \<Rightarrow> mstate list \<Rightarrow> mstate list" where
  "star_iter f r n ss =
     concat (map (\<lambda>s'. if length (rest s') < n then run f r s' else []) ss)"

lemma star_iter_code [code]:
  "star_iter f r n [] = []"
  "star_iter f r n (s' # ss) =
     (if length (rest s') < n then run f r s' else []) @ star_iter f r n ss"
  by (simp_all add: star_iter_def)

lemma run_code [code]:
  "run f Eps s = [s]"
  "run f (Lit x) s =
     (case rest s of [] \<Rightarrow> []
      | c # cs \<Rightarrow> if (if ignoreCase f then canonicalize c = canonicalize x else c = x)
                 then [MState (Some c) cs (cap s)] else [])"
  "run f Dot s =
     (case rest s of [] \<Rightarrow> []
      | c # cs \<Rightarrow> if dotAll f \<or> \<not> is_line_terminator c
                 then [MState (Some c) cs (cap s)] else [])"
  "run f (Cls neg items) s =
     (case rest s of [] \<Rightarrow> []
      | c # cs \<Rightarrow> if (\<exists>i \<in> set items. citem_has (ignoreCase f) i c) \<noteq> neg
                 then [MState (Some c) cs (cap s)] else [])"
  "run f (Seq a b) s = concat (map (run f b) (run f a s))"
  "run f (Alt a b) s = run f a s @ run f b s"
  "run f (Star a) s = star_iter f (Star a) (length (rest s)) (run f a s) @ [s]"
  "run f (LazyStar a) s = s # star_iter f (LazyStar a) (length (rest s)) (run f a s)"
  "run f (Cap a) s =
     map (\<lambda>s'. MState (prev s') (rest s')
                  (Some (take (length (rest s) - length (rest s')) (rest s))))
         (run f a s)"
  "run f (Look a) s = (if run f a s = [] then [] else [s])"
  "run f Bol s = (if prev s = None then [s] else [])"
  "run f Eol s = (if rest s = [] then [s] else [])"
  "run f WordB s =
     (if (case prev s of None \<Rightarrow> False | Some c \<Rightarrow> is_word_char c)
         \<noteq> (case rest s of [] \<Rightarrow> False | c # _ \<Rightarrow> is_word_char c)
      then [s] else [])"
  by (simp_all add: star_iter_def)

section \<open>Patterns of one code unit and their repetitions\<close>

lemma single_char_Lit: "single_char no_flags (Lit a) (\<lambda>c. c = a)"
  by (simp add: single_char_def no_flags_def)

lemma single_char_Cls:
  "single_char f (Cls neg items) (\<lambda>c. (\<exists>i \<in> set items. citem_has (ignoreCase f) i c) \<noteq> neg)"
  by (simp add: single_char_def)

lemma single_char_Dot: "single_char flag_s Dot (\<lambda>c. True)"
  by (simp add: single_char_def flag_s_def)

lemma run_Star_single:
  assumes "single_char f a P"
  shows "\<exists>ss. run f (Star a) (MState p xs k) =
           MState (prev_after p (takeWhile P xs)) (dropWhile P xs) k # ss"
proof (induction xs arbitrary: p)
  case Nil
  from assms show ?case by (simp add: single_char_def prev_after_def)
next
  case (Cons c cs)
  show ?case
  proof (cases "P c")
    case True
    from Cons.IH [of "Some c"] obtain ss where
      ih: "run f (Star a) (MState (Some c) cs k) =
             MState (prev_after (Some c) (takeWhile P cs)) (dropWhile P cs) k # ss" by blast
    have "run f (Star a) (MState p (c # cs) k) =
            run f (Star a) (MState (Some c) cs k) @ [MState p (c # cs) k]"
      using assms True by (simp add: single_char_def)
    with ih True show ?thesis by (simp add: prev_after_def)
  next
    case False
    with assms show ?thesis by (simp add: single_char_def prev_after_def)
  qed
qed

lemma run_Plus_single_Nil:
  assumes "single_char f a P"
  shows "run f (Plus a) (MState p [] k) = []"
  using assms by (simp add: Plus_def single_char_def)

lemma run_Plus_single_Cons:
  assumes "single_char f a P"
  shows "run f (Plus a) (MState p (c # cs) k) =
           (if P c then run f (Star a) (MState (Some c) cs k) else [])"
  using assms by (simp add: Plus_def single_char_def)

lemma squeeze_run:
  "P c \<Longrightarrow> squeeze P r (c # cs) = r @ squeeze P r (dropWhile P cs)"
  by (induction cs arbitrary: c) auto

lemma replace_all_Plus_single:
  assumes "single_char f a P"
  shows "replace_all f (Plus a) r p xs = squeeze P r xs"
proof (induction xs arbitrary: p rule: length_induct)
  case (1 xs)
  show ?case
  proof (cases xs)
    case Nil
    then show ?thesis by (simp add: run_Plus_single_Nil [OF assms])
  next
    case (Cons c cs)
    show ?thesis
    proof (cases "P c")
      case True
      obtain ss where st: "run f (Star a) (MState (Some c) cs None) =
          MState (prev_after (Some c) (takeWhile P cs)) (dropWhile P cs) None # ss"
        using run_Star_single [OF assms] by blast
      have len: "length (dropWhile P cs) \<le> length cs" by (rule length_dropWhile_le)
      have m: "Suc (length cs) - length (dropWhile P cs) = Suc (length (takeWhile P cs))"
        using len by (metis Suc_diff_le add_diff_cancel_right' length_append takeWhile_dropWhile_id)
      have dr: "drop (length (takeWhile P cs)) cs = dropWhile P cs"
        by (simp add: dropWhile_eq_drop)
      have "length (dropWhile P cs) < length xs" using len Cons by simp
      then have ih: "replace_all f (Plus a) r q (dropWhile P cs) = squeeze P r (dropWhile P cs)" for q
        using 1 by blast
      have "replace_all f (Plus a) r p (c # cs) = r @ replace_all f (Plus a) r
              (Some (last (take (Suc (length (takeWhile P cs))) (c # cs)))) (dropWhile P cs)"
        using True st m dr by (simp add: run_Plus_single_Cons [OF assms])
      with ih Cons True show ?thesis by (simp only: squeeze_run)
    next
      case False
      have "length cs < length xs" using Cons by simp
      then have "replace_all f (Plus a) r q cs = squeeze P r cs" for q using 1 by blast
      with False Cons show ?thesis by (simp add: run_Plus_single_Cons [OF assms])
    qed
  qed
qed

lemma replace_all_single:
  assumes "single_char f a P"
  shows "replace_all f a r p xs = concat (map (\<lambda>c. if P c then r else [c]) xs)"
  using assms by (induction xs arbitrary: p) (simp_all add: single_char_def)

section \<open>The normalizer in closed form\<close>

lemma ws_class: "(\<exists>i \<in> set [ClsSpace]. citem_has b i c) \<noteq> False \<longleftrightarrow> is_ws c"
  by simp

lemma collapse_spaces_squeeze: "collapse_spaces s = squeeze is_ws [32] s"
proof -
  have "single_char no_flags ws (\<lambda>c. (\<exists>i \<in> set [ClsSpace]. citem_has (ignoreCase no_flags) i c) \<noteq> False)"
    unfolding ws_def by (rule single_char_Cls)
  then have "single_char no_flags ws is_ws" by simp
  then show ?thesis
    by (simp add: collapse_spaces_def replace_all_Plus_single js_def)
qed

lemma bar_class:
  "((\<exists>i \<in> set [one CHR ''|'']. citem_has b i c) \<noteq> False) = (c = 124)"
  by (auto simp add: one_def canonicalize_def)

lemma normalize_eq:
  "normalize s = trim (map fix_bar (squeeze is_ws [32] (squeeze (\<lambda>c. c = 10) [32] s)))"
proof -
  have nl: "replace_all no_flags (Plus (Lit 10)) (js '' '') None s = squeeze (\<lambda>c. c = 10) [32] s"
    by (simp add: replace_all_Plus_single [OF single_char_Lit] js_def)
  have sp: "replace_all no_flags (Plus ws) (js '' '') None t = squeeze is_ws [32] t" for t
    using collapse_spaces_squeeze [of t] by (simp add: collapse_spaces_def)
  have "single_char no_flags (Cls False [one CHR ''|''])
          (\<lambda>c. (\<exists>i \<in> set [one CHR ''|'']. citem_has (ignoreCase no_flags) i c) \<noteq> False)"
    by (rule single_char_Cls)
  then have "single_char no_flags (Cls False [one CHR ''|'']) (\<lambda>c. c = 124)"
    by (simp only: bar_class)
  then have "replace_all no_flags (Cls False [one CHR ''|'']) (js ''I'') None t =
               concat (map (\<lambda>c. if c = 124 then js ''I'' else [c]) t)" for t
    by (rule replace_all_single)
  also have "concat (map (\<lambda>c. if c = 124 then js ''I'' else [c]) t) = map fix_bar t" for t
    by (induction t) (simp_all add: fix_bar_def js_def)
  finally have bar: "replace_all no_flags (Cls False [one CHR ''|'']) (js ''I'') None t = map fix_bar t" for t .
  show ?thesis
    unfolding normalize_def by (simp only: nl sp bar)
qed

lemma tidy_Cons:
  "tidy (x # zs) \<longleftrightarrow> (is_ws x \<longrightarrow> x = 32 \<and> (zs \<noteq> [] \<longrightarrow> \<not> is_ws (hd zs))) \<and> tidy zs"
  by (cases zs) auto

lemma squeeze_hd: "\<not> P y \<Longrightarrow> squeeze P r (y # ys) = y # squeeze P r ys"
  by simp

lemma is_ws_32: "is_ws 32"
  by (simp add: is_ws_def)

lemma squeeze_ws_Cons2:
  "is_ws x \<Longrightarrow> squeeze is_ws [32] (x # y # ys) =
     (if is_ws y then squeeze is_ws [32] (y # ys) else 32 # y # squeeze is_ws [32] ys)"
  by simp

lemma tidy_squeeze: "tidy (squeeze is_ws [32] xs)"
proof (induction xs)
  case Nil
  then show ?case by simp
next
  case (Cons x xs)
  show ?case
  proof (cases "is_ws x")
    case False
    with Cons show ?thesis by (simp add: tidy_Cons)
  next
    case True
    show ?thesis
    proof (cases xs)
      case Nil
      with True show ?thesis by simp
    next
      case c: (Cons y ys)
      show ?thesis
      proof (cases "is_ws y")
        case True
        with \<open>is_ws x\<close> Cons.IH c show ?thesis by (simp only: squeeze_ws_Cons2 if_True)
      next
        case False
        have "tidy (y # squeeze is_ws [32] ys)"
          using Cons.IH c False by simp
        then have "tidy (32 # y # squeeze is_ws [32] ys)"
          using False by simp
        with \<open>is_ws x\<close> c False show ?thesis by (simp only: squeeze_ws_Cons2 if_False)
      qed
    qed
  qed
qed

lemma is_ws_fix_bar: "is_ws (fix_bar c) = is_ws c"
  by (simp add: fix_bar_def is_ws_def)

lemma fix_bar_32: "fix_bar c = 32 \<longleftrightarrow> c = 32"
  by (simp add: fix_bar_def)

lemma tidy_map_fix_bar: "tidy xs \<Longrightarrow> tidy (map fix_bar xs)"
  by (induction xs rule: tidy.induct) (auto simp add: is_ws_fix_bar fix_bar_32)

lemma tidy_tl: "tidy (x # xs) \<Longrightarrow> tidy xs"
  by (simp add: tidy_Cons)

lemma tidy_dropWhile: "tidy xs \<Longrightarrow> tidy (dropWhile P xs)"
  by (induction xs) (auto dest: tidy_tl)

lemma tidy_prefix: "tidy (xs @ ys) \<Longrightarrow> tidy xs"
proof (induction xs rule: tidy.induct)
  case 1
  then show ?case by simp
next
  case (2 x)
  then show ?case by (cases ys) auto
next
  case (3 x y r)
  then show ?case by simp
qed

lemma rev_dropWhile_rev_prefix: "\<exists>zs. ys = rev (dropWhile P (rev ys)) @ zs"
proof -
  have "rev ys = takeWhile P (rev ys) @ dropWhile P (rev ys)" by simp
  then have "rev (rev ys) = rev (takeWhile P (rev ys) @ dropWhile P (rev ys))" by simp
  then have "ys = rev (dropWhile P (rev ys)) @ rev (takeWhile P (rev ys))"
    by (simp only: rev_rev_ident rev_append)
  then show ?thesis by blast
qed

lemma tidy_trim: "tidy xs \<Longrightarrow> tidy (trim xs)"
proof -
  assume t: "tidy xs"
  let ?ys = "dropWhile is_ws xs"
  from t have ty: "tidy ?ys" by (rule tidy_dropWhile)
  obtain zs where eq: "?ys = rev (dropWhile is_ws (rev ?ys)) @ zs"
    using rev_dropWhile_rev_prefix by blast
  from ty eq have "tidy (rev (dropWhile is_ws (rev ?ys)) @ zs)" by (rule back_subst)
  then have "tidy (rev (dropWhile is_ws (rev ?ys)))" by (rule tidy_prefix)
  then show ?thesis by (simp add: trim_def)
qed

lemma dropWhile_front_kept:
  assumes "ys \<noteq> [] \<longrightarrow> \<not> P (hd ys)"
  shows "dropWhile P (rev (dropWhile P (rev ys))) = rev (dropWhile P (rev ys))"
proof (cases "rev (dropWhile P (rev ys))")
  case Nil
  then show ?thesis by (simp only: dropWhile.simps)
next
  case (Cons b bs)
  obtain zs where "ys = rev (dropWhile P (rev ys)) @ zs"
    using rev_dropWhile_rev_prefix by blast
  with Cons have "ys = (b # bs) @ zs" by simp
  then have "ys \<noteq> []" "hd ys = b" by simp_all
  with assms have "\<not> P b" by simp
  with Cons show ?thesis by simp
qed

lemma trim_trim: "trim (trim xs) = trim xs"
proof -
  let ?ys = "dropWhile is_ws xs"
  have "?ys \<noteq> [] \<longrightarrow> \<not> is_ws (hd ?ys)" using hd_dropWhile by blast
  then have "dropWhile is_ws (rev (dropWhile is_ws (rev ?ys))) = rev (dropWhile is_ws (rev ?ys))"
    by (rule dropWhile_front_kept)
  then show ?thesis by (simp add: trim_def)
qed

lemma tidy_ws_32: "tidy xs \<Longrightarrow> c \<in> set xs \<Longrightarrow> is_ws c \<Longrightarrow> c = 32"
  by (induction xs rule: tidy.induct) auto

lemma squeeze_none: "\<forall>c \<in> set xs. \<not> P c \<Longrightarrow> squeeze P r xs = xs"
  by (induction xs) auto

lemma squeeze_tidy: "tidy xs \<Longrightarrow> squeeze is_ws [32] xs = xs"
  by (induction xs rule: tidy.induct) auto

lemma fix_bar_set: "124 \<notin> set (map fix_bar xs)"
  by (auto simp add: fix_bar_def)

lemma set_trim: "set (trim xs) \<subseteq> set xs"
proof
  fix c assume "c \<in> set (trim xs)"
  then have "c \<in> set (dropWhile is_ws (rev (dropWhile is_ws xs)))" by (simp add: trim_def)
  then have "c \<in> set (rev (dropWhile is_ws xs))" by (rule set_dropWhileD)
  then have "c \<in> set (dropWhile is_ws xs)" by simp
  then show "c \<in> set xs" by (rule set_dropWhileD)
qed

lemma map_fix_bar_id: "124 \<notin> set xs \<Longrightarrow> map fix_bar xs = xs"
  by (induction xs) (auto simp add: fix_bar_def)

lemma normalize_twice: "normalize (normalize s) = normalize s"
proof -
  let ?u = "map fix_bar (squeeze is_ws [32] (squeeze (\<lambda>c. c = 10) [32] s))"
  let ?t = "normalize s"
  have t: "?t = trim ?u" by (rule normalize_eq)
  have tidy_u: "tidy ?u" by (intro tidy_map_fix_bar tidy_squeeze)
  have tidy_t: "tidy ?t" unfolding t using tidy_u by (rule tidy_trim)
  have nobar: "124 \<notin> set ?t"
    unfolding t using set_trim [of ?u] fix_bar_set [of "squeeze is_ws [32] (squeeze (\<lambda>c. c = 10) [32] s)"]
    by blast
  have nonl: "\<forall>c \<in> set ?t. \<not> c = 10"
  proof
    fix c assume c: "c \<in> set ?t"
    show "\<not> c = 10"
    proof
      assume "c = 10"
      then have "is_ws c" by (simp add: is_ws_def)
      with tidy_t c have "c = 32" by (rule tidy_ws_32)
      with \<open>c = 10\<close> show False by simp
    qed
  qed
  have s1: "squeeze (\<lambda>c. c = 10) [32] ?t = ?t" using nonl by (rule squeeze_none)
  have s2: "squeeze is_ws [32] ?t = ?t" using tidy_t by (rule squeeze_tidy)
  have s3: "map fix_bar ?t = ?t" using nobar by (rule map_fix_bar_id)
  have s4: "trim ?t = ?t" unfolding t by (rule trim_trim)
  have "normalize ?t = trim (map fix_bar (squeeze is_ws [32] (squeeze (\<lambda>c. c = 10) [32] ?t)))"
    by (rule normalize_eq)
  also have "\<dots> = ?t" by (simp only: s1 s2 s3 s4)
  finally show ?thesis .
qed

section \<open>The clean-up in closed form\<close>

lemma letter_class:
  "((\<exists>i \<in> set [rng CHR ''a'' CHR ''z'', rng CHR ''A'' CHR ''Z'']. citem_has False i c) \<noteq> True)
     = (\<not> is_ascii_letter c)"
  by (auto simp add: rng_def is_ascii_letter_def)

lemma length_minus_dropWhile:
  "length xs - length (dropWhile P xs) = length (takeWhile P xs)"
proof -
  have "length (takeWhile P xs) + length (dropWhile P xs) = length xs"
    by (simp only: length_append [symmetric] takeWhile_dropWhile_id)
  then show ?thesis by linarith
qed

lemma replace_first_Bol_Star_single:
  assumes "single_char f a P"
  shows "replace_first f (Seq Bol (Star a)) [] xs = dropWhile P xs"
proof -
  obtain ss where st: "run f (Star a) (MState None xs None) =
      MState (prev_after None (takeWhile P xs)) (dropWhile P xs) None # ss"
    using run_Star_single [OF assms] by blast
  have r: "run f (Seq Bol (Star a)) (MState None xs None) =
      MState (prev_after None (takeWhile P xs)) (dropWhile P xs) None # ss"
    using st by simp
  have "exec f (Seq Bol (Star a)) xs =
          Some \<lparr>index = 0, matched = takeWhile P xs, group1 = None\<rparr>"
  proof (cases xs)
    case Nil
    with r show ?thesis by (simp add: exec_def)
  next
    case (Cons c cs)
    have "take (length (c # cs) - length (dropWhile P (c # cs))) (c # cs) = takeWhile P (c # cs)"
      by (simp only: length_minus_dropWhile takeWhile_eq_take [symmetric])
    with r Cons show ?thesis by (simp add: exec_def del: dropWhile.simps takeWhile.simps)
  qed
  then show ?thesis by (simp add: replace_first_def dropWhile_eq_drop)
qed

lemma strip_leading_nonletters_eq:
  "strip_leading_nonletters s = dropWhile (\<lambda>c. \<not> is_ascii_letter c) s"
proof -
  have "single_char no_flags (Cls True [rng CHR ''a'' CHR ''z'', rng CHR ''A'' CHR ''Z''])
          (\<lambda>c. (\<exists>i \<in> set [rng CHR ''a'' CHR ''z'', rng CHR ''A'' CHR ''Z''].
                   citem_has (ignoreCase no_flags) i c) \<noteq> True)"
    by (rule single_char_Cls)
  then have "single_char no_flags (Cls True [rng CHR ''a'' CHR ''z'', rng CHR ''A'' CHR ''Z''])
          (\<lambda>c. \<not> is_ascii_letter c)"
    by (simp only: no_flags_def flags.simps letter_class)
  then show ?thesis
    unfolding strip_leading_nonletters_def by (rule replace_first_Bol_Star_single)
qed

lemma letter_not_ws: "is_ascii_letter c \<Longrightarrow> \<not> is_ws c"
  by (auto simp add: is_ascii_letter_def is_ws_def)

lemma trim_Nil_iff: "trim xs = [] \<longleftrightarrow> (\<forall>c \<in> set xs. is_ws c)"
proof
  assume "trim xs = []"
  then have "dropWhile is_ws (rev (dropWhile is_ws xs)) = []" by (simp add: trim_def)
  then have "\<forall>c \<in> set (rev (dropWhile is_ws xs)). is_ws c"
    by (simp only: dropWhile_eq_Nil_conv)
  then have a: "\<forall>c \<in> set (dropWhile is_ws xs). is_ws c" by (simp only: set_rev)
  have b: "dropWhile is_ws xs \<noteq> [] \<longrightarrow> \<not> is_ws (hd (dropWhile is_ws xs))"
    using hd_dropWhile by blast
  have "dropWhile is_ws xs = []"
  proof (cases "dropWhile is_ws xs")
    case Nil
    then show ?thesis .
  next
    case (Cons y ys)
    with a b show ?thesis by (simp del: dropWhile_eq_Nil_conv)
  qed
  then show "\<forall>c \<in> set xs. is_ws c" by (simp only: dropWhile_eq_Nil_conv)
next
  assume "\<forall>c \<in> set xs. is_ws c"
  then have "dropWhile is_ws xs = []" by (simp only: dropWhile_eq_Nil_conv)
  then show "trim xs = []" by (simp only: trim_def rev.simps dropWhile.simps)
qed

lemma clean_eq:
  "trim (collapse_spaces (strip_leading_nonletters s)) =
     trim (squeeze is_ws [32] (dropWhile (\<lambda>c. \<not> is_ascii_letter c) s))"
  by (simp only: strip_leading_nonletters_eq collapse_spaces_squeeze)

lemma clean_optionText_eq:
  "clean_optionText s =
     trim (dropWhile (\<lambda>c. \<not> is_ascii_letter c) (squeeze is_ws [32] s))"
  by (simp only: clean_optionText_def strip_leading_nonletters_eq collapse_spaces_squeeze)

lemma clean_empty_iff:
  "trim (collapse_spaces (strip_leading_nonletters s)) = [] \<longleftrightarrow> (\<forall>c \<in> set s. \<not> is_ascii_letter c)"
proof (cases "dropWhile (\<lambda>c. \<not> is_ascii_letter c) s")
  case Nil
  then have a: "\<forall>c \<in> set s. \<not> is_ascii_letter c" by (simp only: dropWhile_eq_Nil_conv)
  have "trim (squeeze is_ws [32] []) = []" by (simp add: trim_def)
  with a Nil show ?thesis by (simp only: clean_eq) simp
next
  case (Cons l zs)
  then have "dropWhile (\<lambda>c. \<not> is_ascii_letter c) s \<noteq> []" by simp
  then have "\<not> \<not> is_ascii_letter (hd (dropWhile (\<lambda>c. \<not> is_ascii_letter c) s))"
    by (rule hd_dropWhile)
  with Cons have l: "is_ascii_letter l" by simp
  have "l \<in> set (dropWhile (\<lambda>c. \<not> is_ascii_letter c) s)" using Cons by simp
  then have ls: "l \<in> set s" by (rule set_dropWhileD)
  from l have nws: "\<not> is_ws l" by (rule letter_not_ws)
  have "squeeze is_ws [32] (l # zs) = l # squeeze is_ws [32] zs" using nws by simp
  then have "l \<in> set (squeeze is_ws [32] (l # zs))" by simp
  with nws have ne: "trim (squeeze is_ws [32] (l # zs)) \<noteq> []"
    unfolding trim_Nil_iff by blast
  have lhs: "trim (collapse_spaces (strip_leading_nonletters s)) \<noteq> []"
    using ne Cons by (simp only: clean_eq) simp
  from l ls have rhs: "\<not> (\<forall>c \<in> set s. \<not> is_ascii_letter c)" by blast
  from lhs rhs show ?thesis by blast
qed

section \<open>The question-mark pattern\<close>

lemma run_Star_Dot_Cons:
  "run flag_s (Star Dot) (MState p (x # xs) k) =
     run flag_s (Star Dot) (MState (Some x) xs k) @ [MState p (x # xs) k]"
  by (simp add: flag_s_def)

lemma run_Star_Dot_Nil: "run flag_s (Star Dot) (MState p [] k) = [MState p [] k]"
  by simp

lemma run_to_qmark_Nil: "run flag_s (Seq (Star Dot) (Lit 63)) (MState p [] k) = []"
  by simp

lemma run_to_qmark_Cons:
  "run flag_s (Seq (Star Dot) (Lit 63)) (MState p (x # xs) k) =
     run flag_s (Seq (Star Dot) (Lit 63)) (MState (Some x) xs k)
     @ (if x = 63 then [MState (Some x) xs k] else [])"
proof -
  have "run flag_s (Seq (Star Dot) (Lit 63)) (MState p (x # xs) k) =
          concat (map (run flag_s (Lit 63))
            (run flag_s (Star Dot) (MState (Some x) xs k) @ [MState p (x # xs) k]))"
    by (simp only: run.simps(5) run_Star_Dot_Cons)
  also have "\<dots> = concat (map (run flag_s (Lit 63)) (run flag_s (Star Dot) (MState (Some x) xs k)))
                   @ run flag_s (Lit 63) (MState p (x # xs) k)"
    by simp
  also have "\<dots> = run flag_s (Seq (Star Dot) (Lit 63)) (MState (Some x) xs k)
                   @ (if x = 63 then [MState (Some x) xs k] else [])"
    by (simp add: flag_s_def)
  finally show ?thesis .
qed

lemma run_to_qmark_none:
  "63 \<notin> set xs \<Longrightarrow> run flag_s (Seq (Star Dot) (Lit 63)) (MState p xs k) = []"
proof (induction xs arbitrary: p)
  case Nil
  show ?case by (rule run_to_qmark_Nil)
next
  case (Cons x xs)
  from Cons.prems have a: "x \<noteq> 63" and b: "63 \<notin> set xs" by auto
  from Cons.IH [OF b] have "run flag_s (Seq (Star Dot) (Lit 63)) (MState (Some x) xs k) = []" .
  with a show ?case by (simp only: run_to_qmark_Cons if_False append_Nil)
qed

lemma run_to_qmark_last:
  "63 \<notin> set suf \<Longrightarrow>
   \<exists>ss. run flag_s (Seq (Star Dot) (Lit 63)) (MState p (pre @ 63 # suf) k) = MState (Some 63) suf k # ss"
proof (induction pre arbitrary: p)
  case Nil
  then have e: "run flag_s (Seq (Star Dot) (Lit 63)) (MState (Some 63) suf k) = []"
    by (rule run_to_qmark_none)
  have "run flag_s (Seq (Star Dot) (Lit 63)) (MState p ([] @ 63 # suf) k) = MState (Some 63) suf k # []"
    unfolding append_Nil run_to_qmark_Cons e by simp
  then show ?case by (rule exI)
next
  case (Cons x pre)
  from Cons.IH [OF Cons.prems, of "Some x"] obtain ss where
    ih: "run flag_s (Seq (Star Dot) (Lit 63)) (MState (Some x) (pre @ 63 # suf) k) = MState (Some 63) suf k # ss"
    by blast
  have "run flag_s (Seq (Star Dot) (Lit 63)) (MState p ((x # pre) @ 63 # suf) k) =
      MState (Some 63) suf k # (ss @ (if x = 63 then [MState (Some x) (pre @ 63 # suf) k] else []))"
    unfolding append_Cons run_to_qmark_Cons ih by simp
  then show ?case by (rule exI)
qed

lemma run_Cap_Cons:
  "run f a s = s1 # ss \<Longrightarrow>
   \<exists>ss'. run f (Cap a) s =
      MState (prev s1) (rest s1) (Some (take (length (rest s) - length (rest s1)) (rest s))) # ss'"
  by simp

lemma run_Cap_Nil: "run f a s = [] \<Longrightarrow> run f (Cap a) s = []"
  by simp

lemma search_first:
  "run f r (MState p xs None) = s1 # ss \<Longrightarrow>
   search f r p xs i =
     Some \<lparr>index = i, matched = take (length xs - length (rest s1)) xs, group1 = cap s1\<rparr>"
  by (cases xs) simp_all

lemma search_skip:
  "run f r (MState p (x # xs) None) = [] \<Longrightarrow>
   search f r p (x # xs) i = search f r (Some x) xs (Suc i)"
  by simp

lemma search_Nil_none:
  "run f r (MState p [] None) = [] \<Longrightarrow> search f r p [] i = None"
  by simp

lemma exec_qmark_found:
  assumes "63 \<notin> set suf"
  shows "exec flag_s (Cap (Seq (Star Dot) (Ch CHR ''?''))) (pre @ 63 # suf) =
           Some \<lparr>index = 0, matched = pre @ [63], group1 = Some (pre @ [63])\<rparr>"
proof -
  obtain ss where "run flag_s (Seq (Star Dot) (Lit 63)) (MState None (pre @ 63 # suf) None) =
      MState (Some 63) suf None # ss"
    using run_to_qmark_last [OF assms] by blast
  then obtain ss' where r: "run flag_s (Cap (Seq (Star Dot) (Lit 63))) (MState None (pre @ 63 # suf) None) =
      MState (Some 63) suf (Some (take (length (pre @ 63 # suf) - length suf) (pre @ 63 # suf))) # ss'"
    using run_Cap_Cons [of flag_s "Seq (Star Dot) (Lit 63)" "MState None (pre @ 63 # suf) None"
        "MState (Some 63) suf None" ss]
    by (simp only: mstate.sel) blast
  have ch: "Ch CHR ''?'' = Lit 63" by (simp add: Ch_def)
  have tk: "take (length (pre @ 63 # suf) - length suf) (pre @ 63 # suf) = pre @ [63]"
    by simp
  show ?thesis
    unfolding exec_def ch by (simp only: search_first [OF r] tk mstate.sel)
qed

lemma search_qmark_none:
  "63 \<notin> set xs \<Longrightarrow> search flag_s (Cap (Seq (Star Dot) (Lit 63))) p xs i = None"
proof (induction xs arbitrary: p i)
  case Nil
  have "run flag_s (Cap (Seq (Star Dot) (Lit 63))) (MState p [] None) = []"
    by (rule run_Cap_Nil) (rule run_to_qmark_Nil)
  then show ?case by (rule search_Nil_none)
next
  case (Cons x xs)
  have "run flag_s (Cap (Seq (Star Dot) (Lit 63))) (MState p (x # xs) None) = []"
    using Cons.prems by (intro run_Cap_Nil run_to_qmark_none)
  then have "search flag_s (Cap (Seq (Star Dot) (Lit 63))) p (x # xs) i =
             search flag_s (Cap (Seq (Star Dot) (Lit 63))) (Some x) xs (Suc i)"
    by (rule search_skip)
  also have "\<dots> = None" using Cons by simp
  finally show ?case .
qed

lemma question_mark_boundary_found:
  "63 \<notin> set suf \<Longrightarrow> question_mark_boundary (pre @ 63 # suf) = trim (pre @ [63])"
  by (simp add: question_mark_boundary_def exec_qmark_found truthy_group1_def)

lemma question_mark_boundary_none:
  "63 \<notin> set t \<Longrightarrow> question_mark_boundary t = []"
  by (simp add: question_mark_boundary_def exec_def Ch_def search_qmark_none truthy_group1_def)

section \<open>The ids of the options\<close>

lemma labeled_option_ids: "map opt_id (labeled_option c l) = (if labeled_option c l = [] then [] else [l])"
  by (simp add: labeled_option_def Let_def)

lemma labeled_options_ids:
  "map opt_id (labeled_options c) = filter (\<lambda>l. labeled_option c l \<noteq> []) [A, B, C, D]"
  by (simp add: labeled_options_def labeled_option_ids)

lemma missingIds_labeled:
  "missingIds_of (labeled_options c) = filter (\<lambda>l. labeled_option c l = []) [A, B, C, D]"
  unfolding missingIds_of_def labeled_options_ids by (rule filter_cong) auto

lemma inferred_ids:
  "map opt_id (inferred_options lc c opts) =
     take (length (candidateTexts_of lc c opts)) (missingIds_of opts)"
proof -
  have "map opt_id (inferred_options lc c opts) =
          map fst (zip (missingIds_of opts) (candidateTexts_of lc c opts))"
    unfolding inferred_options_def by auto
  also have "\<dots> = take (min (length (missingIds_of opts)) (length (candidateTexts_of lc c opts)))
                      (missingIds_of opts)"
    by (rule map_fst_zip_take)
  finally show ?thesis by (simp add: min_def)
qed

lemma inferred_ids_missing:
  "set (map opt_id (inferred_options lc c opts)) \<subseteq> set (missingIds_of opts)"
  unfolding inferred_ids by (rule set_take_subset)

lemma missing_not_found: "l \<in> set (missingIds_of opts) \<Longrightarrow> l \<notin> set (map opt_id opts)"
  unfolding missingIds_of_def by (simp del: filter.simps)

lemma combined_ids_distinct:
  "distinct (map opt_id (labeled_options c @ inferred_options lc c (labeled_options c)))"
proof -
  have d1: "distinct (map opt_id (labeled_options c))"
    unfolding labeled_options_ids by simp
  have d2: "distinct (map opt_id (inferred_options lc c (labeled_options c)))"
    unfolding inferred_ids by (rule distinct_take) (simp add: missingIds_of_def)
  have d3: "set (map opt_id (labeled_options c)) \<inter>
            set (map opt_id (inferred_options lc c (labeled_options c))) = {}"
    using inferred_ids_missing [of lc c "labeled_options c"] missing_not_found [of _ "labeled_options c"]
    by blast
  show ?thesis using d1 d2 d3 by simp
qed

lemma combined_length:
  "length (labeled_options c @ inferred_options lc c (labeled_options c)) \<le> 4"
proof -
  have "length (labeled_options c) = length (map opt_id (labeled_options c))" by simp
  also have "\<dots> = length (filter (\<lambda>l. labeled_option c l \<noteq> []) [A, B, C, D])"
    by (simp only: labeled_options_ids)
  finally have l1: "length (labeled_options c) = length (filter (\<lambda>l. labeled_option c l \<noteq> []) [A, B, C, D])" .
  have "length (inferred_options lc c (labeled_options c)) =
          length (map opt_id (inferred_options lc c (labeled_options c)))" by simp
  also have "\<dots> \<le> length (missingIds_of (labeled_options c))"
    unfolding inferred_ids by simp
  also have "\<dots> = length (filter (\<lambda>l. \<not> labeled_option c l \<noteq> []) [A, B, C, D])"
    by (simp add: missingIds_labeled)
  finally have l2: "length (inferred_options lc c (labeled_options c)) \<le>
                    length (filter (\<lambda>l. \<not> labeled_option c l \<noteq> []) [A, B, C, D])" .
  have "length (filter (\<lambda>l. labeled_option c l \<noteq> []) [A, B, C, D]) +
        length (filter (\<lambda>l. \<not> labeled_option c l \<noteq> []) [A, B, C, D]) = length [A, B, C, D]"
    by (rule sum_length_filter_compl)
  with l1 l2 show ?thesis by simp
qed

lemma all_options_cases:
  "all_options lc c = labeled_options c \<and> length (labeled_options c) = 4
   \<or> all_options lc c = sort_key (\<lambda>opt. letter_code (opt_id opt)) (labeled_options c) \<and> length (labeled_options c) < 4  \<and> missingIds_of (labeled_options c) = []
   \<or> all_options lc c = sort_key (\<lambda>opt. letter_code (opt_id opt))
        (labeled_options c @ inferred_options lc c (labeled_options c)) \<and> length (labeled_options c) < 4"
proof -
  have "length (labeled_options c) \<le> 4"
    using combined_length [of c lc] by simp
  then show ?thesis by (auto simp add: all_options_def Let_def)
qed

lemma letter_code_inj: "letter_code a = letter_code b \<Longrightarrow> a = b"
  by (cases a; cases b) simp_all

lemma all_options_length: "length (all_options lc c) \<le> 4"
  using all_options_cases [of lc c] combined_length [of c lc] by auto

lemma distinct_map_sort_key: "distinct (map g (sort_key k xs)) = distinct (map g xs)"
proof -
  have "distinct (map g (sort_key k xs)) \<longleftrightarrow>
        card (set (map g (sort_key k xs))) = length (map g (sort_key k xs))"
    using distinct_card card_distinct by blast
  also have "\<dots> \<longleftrightarrow> card (set (map g xs)) = length (map g xs)" by simp
  also have "\<dots> \<longleftrightarrow> distinct (map g xs)"
    using distinct_card card_distinct by blast
  finally show ?thesis .
qed

lemma labeled_ids_distinct: "distinct (map opt_id (labeled_options c))"
  unfolding labeled_options_ids by simp

lemma all_options_distinct: "distinct (map opt_id (all_options lc c))"
  using all_options_cases [of lc c] combined_ids_distinct [of c lc] labeled_ids_distinct [of c]
  by (auto simp add: distinct_map_sort_key)

lemma labeled_sorted: "sorted (map (\<lambda>opt. letter_code (opt_id opt)) (labeled_options c))"
proof -
  have "map (\<lambda>opt. letter_code (opt_id opt)) (labeled_options c) =
        map letter_code (map opt_id (labeled_options c))" by simp
  also have "\<dots> = map letter_code (filter (\<lambda>l. labeled_option c l \<noteq> []) [A, B, C, D])"
    by (simp only: labeled_options_ids)
  finally show ?thesis by simp
qed

lemma all_options_sorted: "sorted (map (\<lambda>opt. letter_code (opt_id opt)) (all_options lc c))"
  using all_options_cases [of lc c] labeled_sorted [of c]
  by auto

lemma parse_result:
  "snd (parseMCQFromText lc txt fname) =
     Some \<lparr>questionId = questionId_of (normalize txt) fname, filename = fname,
           question = questionText_of (normalize txt),
           options = all_options lc (normalize txt), rawText = txt\<rparr>"
  by (simp add: parseMCQFromText_def Let_def)

section \<open>The longest capture\<close>

lemma fold_keep_longer:
  "length acc \<le> length (fold keep_longer ms acc)
   \<and> (\<forall>m \<in> set ms. \<forall>c. truthy_group1 m = Some c \<longrightarrow> length (trim c) \<le> length (fold keep_longer ms acc))
   \<and> (fold keep_longer ms acc = acc
        \<or> (\<exists>m \<in> set ms. \<exists>c. truthy_group1 m = Some c \<and> fold keep_longer ms acc = trim c))"
proof (induction ms arbitrary: acc)
  case Nil
  then show ?case by simp
next
  case (Cons m ms)
  let ?acc' = "keep_longer m acc"
  have step: "length acc \<le> length ?acc'"
    by (simp add: keep_longer_def split: option.splits)
  have cap: "\<forall>c. truthy_group1 m = Some c \<longrightarrow> length (trim c) \<le> length ?acc'"
    by (simp add: keep_longer_def split: option.splits)
  have src: "?acc' = acc \<or> (\<exists>c. truthy_group1 m = Some c \<and> ?acc' = trim c)"
    by (simp add: keep_longer_def split: option.splits)
  from Cons.IH [of ?acc'] step cap src show ?case
    by (auto intro: order_trans) 
qed

lemma optionText_of_fold:
  "optionText_of c l = fold keep_longer (map (\<lambda>pattern. exec flag_i pattern c) (labelPatterns l)) []"
  by (simp add: optionText_of_def fold_map o_def)

lemma trimmed_captures_set:
  "t \<in> set (trimmed_captures c l) \<longleftrightarrow>
     (\<exists>m \<in> set (map (\<lambda>pattern. exec flag_i pattern c) (labelPatterns l)).
        \<exists>x. truthy_group1 m = Some x \<and> t = trim x)"
  unfolding trimmed_captures_def
  by (auto split: option.splits) (metis option.inject option.distinct(1))+

lemma optionText_longest:
  "(\<forall>t \<in> set (trimmed_captures c l). length t \<le> length (optionText_of c l))
   \<and> (optionText_of c l = [] \<or> optionText_of c l \<in> set (trimmed_captures c l))"
proof -
  let ?ms = "map (\<lambda>pattern. exec flag_i pattern c) (labelPatterns l)"
  note f = fold_keep_longer [of "[]" ?ms, folded optionText_of_fold]
  have a: "length t \<le> length (optionText_of c l)" if "t \<in> set (trimmed_captures c l)" for t
  proof -
    from that obtain m x where "m \<in> set ?ms" "truthy_group1 m = Some x" "t = trim x"
      unfolding trimmed_captures_set by blast
    with f show ?thesis by blast
  qed
  have b: "optionText_of c l = [] \<or> optionText_of c l \<in> set (trimmed_captures c l)"
    using f unfolding trimmed_captures_set by blast
  from a b show ?thesis by blast
qed

lemma clean_optionText_empty: "clean_optionText [] = []"
  by (simp add: clean_optionText_def collapse_spaces_def strip_leading_nonletters_def
      replace_first_def exec_def Plus_def ws_def trim_def)

lemma labeled_option_nonempty_iff:
  "labeled_option c l \<noteq> [] \<longleftrightarrow> length (clean_optionText (optionText_of c l)) > 5"
  using clean_optionText_empty by (auto simp add: labeled_option_def Let_def)

lemma labeled_option_value:
  "labeled_option c l =
     (if length (clean_optionText (optionText_of c l)) > 5
      then [\<lparr>opt_id = l, opt_text = clean_optionText (optionText_of c l)\<rparr>] else [])"
  using clean_optionText_empty by (auto simp add: labeled_option_def Let_def)

lemma filter_id_labeled_option:
  "filter (\<lambda>opt. opt_id opt = l) (labeled_option c l') = (if l' = l then labeled_option c l else [])"
  by (simp add: labeled_option_def Let_def)

lemma filter_id_labeled:
  "filter (\<lambda>opt. opt_id opt = l) (labeled_options c) = labeled_option c l"
  by (cases l) (simp_all add: labeled_options_def filter_id_labeled_option del: filter.simps)

section \<open>The labeled options in the result\<close>

lemma filter_found_labeled:
  "filter (\<lambda>opt. opt_id opt \<notin> set (missingIds_of opts)) opts = opts"
proof -
  have "opt_id x \<notin> set (missingIds_of opts)" if "x \<in> set opts" for x
    using that missing_not_found [of "opt_id x" opts] by auto
  then show ?thesis by (simp add: filter_id_conv)
qed

lemma filter_found_inferred:
  "filter (\<lambda>opt. opt_id opt \<notin> set (missingIds_of opts)) (inferred_options lc c opts) = []"
proof -
  have "opt_id x \<in> set (missingIds_of opts)" if "x \<in> set (inferred_options lc c opts)" for x
    using that inferred_ids_missing [of lc c opts] by auto
  then show ?thesis by (simp add: filter_empty_conv)
qed

lemma sort_labeled: "sort_key (\<lambda>opt. letter_code (opt_id opt)) (labeled_options c) = labeled_options c"
  by (rule sort_key_id_if_sorted) (rule labeled_sorted)

lemma filter_found_all_options:
  "filter (\<lambda>opt. opt_id opt \<notin> set (missingIds_of (labeled_options c))) (all_options lc c)
     = labeled_options c"
  using all_options_cases [of lc c]
  by (auto simp add: filter_sort filter_found_labeled filter_found_inferred sort_labeled)

lemma labeled_subset_all_options: "set (labeled_options c) \<subseteq> set (all_options lc c)"
proof -
  have "set (labeled_options c) =
          set (filter (\<lambda>opt. opt_id opt \<notin> set (missingIds_of (labeled_options c))) (all_options lc c))"
    by (simp only: filter_found_all_options)
  then show ?thesis by auto
qed

section \<open>Searching past positions without a match\<close>

lemma prev_after_Cons: "prev_after p (x # u) = prev_after (Some x) u"
  by (simp add: prev_after_def)

lemma prev_after_Nil: "prev_after p [] = p"
  by (simp add: prev_after_def)

lemma fails_along_append:
  "fails_along f r p (u1 @ u2) v \<longleftrightarrow>
     fails_along f r p u1 (u2 @ v) \<and> fails_along f r (prev_after p u1) u2 v"
  by (induction u1 arbitrary: p) (simp_all add: prev_after_Nil prev_after_Cons)

lemma search_fails_along:
  "fails_along f r p u v \<Longrightarrow>
   search f r p (u @ v) i = search f r (prev_after p u) v (i + length u)"
proof (induction u arbitrary: p i)
  case Nil
  then show ?case by (simp add: prev_after_Nil)
next
  case (Cons x u)
  from Cons.prems have e: "run f r (MState p (x # u @ v) None) = []"
    and rest: "fails_along f r (Some x) u v" by simp_all
  have "search f r p ((x # u) @ v) i = search f r (Some x) (u @ v) (Suc i)"
    using e by simp
  also have "\<dots> = search f r (prev_after (Some x) u) v (Suc i + length u)"
    using rest by (rule Cons.IH)
  finally show ?case by (simp add: prev_after_Cons)
qed

lemma run_Seq_single:
  assumes "single_char f a Q"
  shows "run f (Seq a R) (MState p xs k) =
           (case xs of [] \<Rightarrow> []
            | x # r \<Rightarrow> if Q x then run f R (MState (Some x) r k) else [])"
  using assms by (cases xs) (simp_all add: single_char_def)

lemma fails_along_first:
  assumes "single_char f a Q" and "\<forall>x \<in> set u. \<not> Q x"
  shows "fails_along f (Seq a R) p u v"
  using assms(2)
proof (induction u arbitrary: p)
  case Nil
  show ?case by simp
next
  case (Cons x u)
  then show ?case by (simp add: run_Seq_single [OF assms(1)] del: run.simps)
qed

lemma run_LazyStar_single_Cons:
  assumes "single_char f a P"
  shows "run f (LazyStar a) (MState p (x # xs) k) =
           MState p (x # xs) k # (if P x then run f (LazyStar a) (MState (Some x) xs k) else [])"
  using assms by (simp add: single_char_def)

lemma run_LazyStar_single_Nil:
  assumes "single_char f a P"
  shows "run f (LazyStar a) (MState p [] k) = [MState p [] k]"
  using assms by (simp add: single_char_def)

lemma run_LazyStar_hd:
  assumes "single_char f a P"
  shows "\<exists>ss. run f (LazyStar a) (MState p xs k) = MState p xs k # ss"
  by (cases xs) (simp_all add: run_LazyStar_single_Cons [OF assms] run_LazyStar_single_Nil [OF assms] del: run.simps)

lemma lazy_first:
  assumes sc: "single_char f a P"
  shows "\<forall>x \<in> set u. P x \<Longrightarrow>
   (\<And>u1 x u2. u = u1 @ x # u2 \<Longrightarrow> g (MState (prev_after p u1) (x # u2 @ v) k) = []) \<Longrightarrow>
   g (MState (prev_after p u) v k) = s1 # ss \<Longrightarrow>
   \<exists>ss'. concat (map g (run f (LazyStar a) (MState p (u @ v) k))) = s1 # ss'"
proof (induction u arbitrary: p)
  case Nil
  obtain zs where "run f (LazyStar a) (MState p v k) = MState p v k # zs"
    using run_LazyStar_hd [OF sc] by blast
  with Nil.prems(3) show ?case by (simp add: prev_after_Nil)
next
  case (Cons x u)
  have px: "P x" using Cons.prems(1) by simp
  have g0: "g (MState p (x # u @ v) k) = []"
    using Cons.prems(2) [of "[]" x u] by (simp add: prev_after_Nil)
  have "\<exists>ss'. concat (map g (run f (LazyStar a) (MState (Some x) (u @ v) k))) = s1 # ss'"
  proof (rule Cons.IH)
    show "\<forall>x \<in> set u. P x" using Cons.prems(1) by simp
    show "g (MState (prev_after (Some x) u1) (y # u2 @ v) k) = []" if "u = u1 @ y # u2" for u1 y u2
      using Cons.prems(2) [of "x # u1" y u2] that by (simp add: prev_after_Cons)
    show "g (MState (prev_after (Some x) u) v k) = s1 # ss"
      using Cons.prems(3) by (simp add: prev_after_Cons)
  qed
  then obtain ss' where "concat (map g (run f (LazyStar a) (MState (Some x) (u @ v) k))) = s1 # ss'"
    by blast
  with px g0 show ?case
    by (simp add: run_LazyStar_single_Cons [OF sc] del: run.simps)
qed

lemma fails_along_split:
  "fails_along f r p (u1 @ x # u2) v \<Longrightarrow> run f r (MState (prev_after p u1) (x # u2 @ v) k) = []"
  by (simp add: fails_along_append del: run.simps)

lemma lazy_cap_first:
  assumes sc: "single_char f a P"
    and all: "\<forall>x \<in> set u. P x"
    and fl: "fails_along f K p u v"
    and ok: "run f K (MState (prev_after p u) v (Some u)) = s1 # ss"
  shows "\<exists>ss'. run f (Seq (Cap (LazyStar a)) K) (MState p (u @ v) k) = s1 # ss'"
proof -
  let ?capf = "\<lambda>s'. MState (prev s') (rest s')
                 (Some (take (length (u @ v) - length (rest s')) (u @ v)))"
  let ?g = "\<lambda>s'. run f K (?capf s')"
  have e: "run f (Seq (Cap (LazyStar a)) K) (MState p (u @ v) k) =
           concat (map ?g (run f (LazyStar a) (MState p (u @ v) k)))"
    by (simp add: o_def del: run.simps(8))
  have "\<exists>ss'. concat (map ?g (run f (LazyStar a) (MState p (u @ v) k))) = s1 # ss'"
  proof (rule lazy_first [OF sc all])
    show "?g (MState (prev_after p u1) (x # u2 @ v) k) = []" if "u = u1 @ x # u2" for u1 x u2
      using fl that by (simp add: fails_along_split del: run.simps)
    show "?g (MState (prev_after p u) v k) = s1 # ss"
      using ok by (simp del: run.simps)
  qed
  with e show ?thesis by (simp only:)
qed

lemma run_Star_then:
  assumes sc: "single_char f a P"
    and fl: "\<And>q x r k. P x \<Longrightarrow> run f R (MState q (x # r) k) = []"
  shows "run f (Seq (Star a) R) (MState p xs k) =
           run f R (MState (prev_after p (takeWhile P xs)) (dropWhile P xs) k)"
proof (induction xs arbitrary: p)
  case Nil
  from sc show ?case by (simp add: single_char_def prev_after_def)
next
  case (Cons x xs)
  show ?case
  proof (cases "P x")
    case True
    have "run f (Star a) (MState p (x # xs) k) =
            run f (Star a) (MState (Some x) xs k) @ [MState p (x # xs) k]"
      using sc True by (simp add: single_char_def)
    then have "run f (Seq (Star a) R) (MState p (x # xs) k) =
            run f (Seq (Star a) R) (MState (Some x) xs k) @ run f R (MState p (x # xs) k)"
      by (simp del: run.simps(7))
    also have "run f R (MState p (x # xs) k) = []" using True by (rule fl)
    finally show ?thesis using True Cons.IH [of "Some x"] by (simp add: prev_after_def)
  next
    case False
    with sc show ?thesis by (simp add: single_char_def prev_after_def)
  qed
qed

lemma run_Star_first:
  assumes sc: "single_char f a P"
    and ok: "run f R (MState (prev_after p (takeWhile P xs)) (dropWhile P xs) k) = s1 # ss"
  shows "\<exists>ss'. run f (Seq (Star a) R) (MState p xs k) = s1 # ss'"
proof -
  obtain zs where "run f (Star a) (MState p xs k) =
      MState (prev_after p (takeWhile P xs)) (dropWhile P xs) k # zs"
    using run_Star_single [OF sc] by blast
  with ok show ?thesis by (simp del: run.simps(7))
qed

lemma run_Look_Eps:
  "run f (Seq (Look Y) Eps) s = (if run f Y s = [] then [] else [s])"
  by simp

lemma single_ws: "single_char f ws is_ws"
proof -
  have "single_char f ws (\<lambda>c. (\<exists>i \<in> set [ClsSpace]. citem_has (ignoreCase f) i c) \<noteq> False)"
    unfolding ws_def by (rule single_char_Cls)
  then show ?thesis by simp
qed

lemma single_Lit_i: "single_char flag_i (Lit a) (\<lambda>c. canonicalize c = canonicalize a)"
  by (simp add: single_char_def flag_i_def)

lemma canon_40: "canonicalize c = canonicalize 40 \<longleftrightarrow> c = 40"
  by (auto simp add: canonicalize_def)

lemma canon_41: "canonicalize c = canonicalize 41 \<longleftrightarrow> c = 41"
  by (auto simp add: canonicalize_def)

lemma canon_letter: "canonicalize (letter_code l) = letter_code l"
  by (cases l) (simp_all add: canonicalize_def)

lemma upt_65_69: "[65..<Suc 68] = [65, 66, 67, 68::nat]"
  by (simp add: upt_rec)

lemma class_AD: "((\<exists>i \<in> set [Rng 65 68]. citem_has True i c) \<noteq> False) = is_AD c"
  by (auto simp add: is_AD_def canonicalize_def upt_65_69)

lemma single_AD: "single_char flag_i (Cls False [Rng 65 68]) is_AD"
proof -
  have "single_char flag_i (Cls False [Rng 65 68])
          (\<lambda>c. (\<exists>i \<in> set [Rng 65 68]. citem_has (ignoreCase flag_i) i c) \<noteq> False)"
    by (rule single_char_Cls)
  then show ?thesis by (simp only: flag_i_def flags.simps class_AD)
qed

lemma class_close: "((\<exists>i \<in> set [Rng 41 41, Rng 46 46]. citem_has True i c) \<noteq> False) = (c = 41 \<or> c = 46)"
  by (auto simp add: canonicalize_def)

lemma single_close: "single_char flag_i (Cls False [Rng 41 41, Rng 46 46]) (\<lambda>c. c = 41 \<or> c = 46)"
proof -
  have "single_char flag_i (Cls False [Rng 41 41, Rng 46 46])
          (\<lambda>c. (\<exists>i \<in> set [Rng 41 41, Rng 46 46]. citem_has (ignoreCase flag_i) i c) \<noteq> False)"
    by (rule single_char_Cls)
  then show ?thesis by (simp only: flag_i_def flags.simps class_close)
qed

lemma class_not_open: "((\<exists>i \<in> set [Rng 40 40]. citem_has True i c) \<noteq> True) = (c \<noteq> 40)"
  by (auto simp add: canonicalize_def)

lemma single_not_open: "single_char flag_i (Cls True [Rng 40 40]) (\<lambda>c. c \<noteq> 40)"
proof -
  have "single_char flag_i (Cls True [Rng 40 40])
          (\<lambda>c. (\<exists>i \<in> set [Rng 40 40]. citem_has (ignoreCase flag_i) i c) \<noteq> True)"
    by (rule single_char_Cls)
  then show ?thesis by (simp only: flag_i_def flags.simps class_not_open)
qed

lemma class_not_nl: "((\<exists>i \<in> set [Rng 10 10]. citem_has True i c) \<noteq> True) = (c \<noteq> 10)"
  by (auto simp add: canonicalize_def)

lemma single_not_nl: "single_char flag_i (Cls True [Rng 10 10]) (\<lambda>c. c \<noteq> 10)"
proof -
  have "single_char flag_i (Cls True [Rng 10 10])
          (\<lambda>c. (\<exists>i \<in> set [Rng 10 10]. citem_has (ignoreCase flag_i) i c) \<noteq> True)"
    by (rule single_char_Cls)
  then show ?thesis by (simp only: flag_i_def flags.simps class_not_nl)
qed

lemma labelPatterns_unfold:
  "labelPatterns l =
     [Seq (Lit 40) (Seq (Lit (letter_code l)) (Seq (Lit 41) (Seq (Star ws)
        (Seq (Cap (LazyStar (Cls True [Rng 40 40]))) (Seq (Look next_paren_label) Eps))))),
      Seq ws (Seq (Lit (letter_code l)) (Seq (Cls False [Rng 41 41, Rng 46 46]) (Seq (Star ws)
        (Seq (Cap (LazyStar (Cls True [Rng 65 68]))) (Seq (Look next_letter_mark) Eps))))),
      Seq (Lit (letter_code l)) (Seq (Cls False [Rng 41 41, Rng 46 46]) (Seq (Star ws)
        (Seq (Cap (LazyStar (Cls True [Rng 10 10]))) (Seq (Look next_letter_mark) Eps))))]"
  by (simp add: labelPatterns_def seqs_def Ch_def one_def rng_def next_paren_label_def
      next_letter_mark_def)

section \<open>The lookaheads of the label patterns\<close>

lemma ws_not_40: "is_ws c \<Longrightarrow> c \<noteq> 40"
  by (auto simp add: is_ws_def)

lemma ws_not_AD: "is_ws c \<Longrightarrow> \<not> is_AD c"
  by (auto simp add: is_ws_def is_AD_def)

lemma run_paren_label:
  "run flag_i (Seq (Lit 40) (Seq (Cls False [Rng 65 68]) (Seq (Lit 41) Eps))) (MState q xs k) =
     (case xs of
        x # m # y # r \<Rightarrow> if x = 40 \<and> is_AD m \<and> y = 41 then [MState (Some y) r k] else []
      | _ \<Rightarrow> [])"
  by (simp add: run_Seq_single [OF single_Lit_i] run_Seq_single [OF single_AD] canon_40 canon_41
      split: list.splits del: run.simps(2,4,5))

lemma run_letter_mark:
  "run flag_i (Seq (Cls False [Rng 65 68]) (Seq (Cls False [Rng 41 41, Rng 46 46]) Eps)) (MState q xs k) =
     (case xs of
        m # y # r \<Rightarrow> if is_AD m \<and> (y = 41 \<or> y = 46) then [MState (Some y) r k] else []
      | _ \<Rightarrow> [])"
  by (simp add: run_Seq_single [OF single_AD] run_Seq_single [OF single_close]
      split: list.splits del: run.simps(2,4,5))

lemma run_next_paren_label:
  "run flag_i next_paren_label (MState q xs k) =
     run flag_i (Seq (Lit 40) (Seq (Cls False [Rng 65 68]) (Seq (Lit 41) Eps)))
       (MState (prev_after q (takeWhile is_ws xs)) (dropWhile is_ws xs) k)
     @ (if xs = [] then [MState q xs k] else [])"
proof -
  have "run flag_i (Seq (Star ws) (Seq (Lit 40) (Seq (Cls False [Rng 65 68]) (Seq (Lit 41) Eps))))
          (MState q xs k) =
        run flag_i (Seq (Lit 40) (Seq (Cls False [Rng 65 68]) (Seq (Lit 41) Eps)))
          (MState (prev_after q (takeWhile is_ws xs)) (dropWhile is_ws xs) k)"
    by (rule run_Star_then [OF single_ws])
       (simp add: run_paren_label ws_not_40 split: list.splits del: run.simps)
  then show ?thesis
    unfolding next_paren_label_def by (simp del: run.simps(5,7))
qed

lemma run_next_letter_mark:
  "run flag_i next_letter_mark (MState q xs k) =
     run flag_i (Seq (Cls False [Rng 65 68]) (Seq (Cls False [Rng 41 41, Rng 46 46]) Eps))
       (MState (prev_after q (takeWhile is_ws xs)) (dropWhile is_ws xs) k)
     @ (if xs = [] then [MState q xs k] else [])"
proof -
  have "run flag_i (Seq (Star ws) (Seq (Cls False [Rng 65 68]) (Seq (Cls False [Rng 41 41, Rng 46 46]) Eps)))
          (MState q xs k) =
        run flag_i (Seq (Cls False [Rng 65 68]) (Seq (Cls False [Rng 41 41, Rng 46 46]) Eps))
          (MState (prev_after q (takeWhile is_ws xs)) (dropWhile is_ws xs) k)"
    by (rule run_Star_then [OF single_ws])
       (simp add: run_letter_mark ws_not_AD split: list.splits del: run.simps)
  then show ?thesis
    unfolding next_letter_mark_def by (simp del: run.simps(5,7))
qed

lemma paren_label_fail:
  "xs \<noteq> [] \<Longrightarrow> dropWhile is_ws xs = [] \<or> hd (dropWhile is_ws xs) \<noteq> 40 \<Longrightarrow>
   run flag_i next_paren_label (MState q xs k) = []"
  by (auto simp add: run_next_paren_label run_paren_label split: list.splits
      simp del: run.simps dropWhile_eq_Nil_conv)

lemma paren_label_end: "run flag_i next_paren_label (MState q [] k) = [MState q [] k]"
  by (simp add: run_next_paren_label run_paren_label del: run.simps)

lemma not_ws_40: "\<not> is_ws 40"
  by (simp add: is_ws_def)

lemma paren_label_ok:
  assumes "is_AD m"
  shows "run flag_i next_paren_label (MState q (32 # 40 # m # 41 # r) k) \<noteq> []"
proof -
  have d: "dropWhile is_ws (32 # 40 # m # 41 # r) = 40 # m # 41 # r"
    by (simp add: is_ws_32 not_ws_40)
  show ?thesis
    unfolding run_next_paren_label d using assms by (simp add: run_paren_label del: run.simps)
qed

lemma letter_mark_fail:
  "xs \<noteq> [] \<Longrightarrow>
   (case dropWhile is_ws xs of [] \<Rightarrow> True
    | y # r \<Rightarrow> \<not> is_AD y \<or> (case r of [] \<Rightarrow> True | z # _ \<Rightarrow> z \<noteq> 41 \<and> z \<noteq> 46)) \<Longrightarrow>
   run flag_i next_letter_mark (MState q xs k) = []"
  by (auto simp add: run_next_letter_mark run_letter_mark split: list.splits
      simp del: run.simps dropWhile_eq_Nil_conv)

lemma letter_mark_end: "run flag_i next_letter_mark (MState q [] k) = [MState q [] k]"
  by (simp add: run_next_letter_mark run_letter_mark del: run.simps)

lemma letter_mark_ok:
  assumes "is_AD m"
  shows "run flag_i next_letter_mark (MState q (m # 41 # r) k) \<noteq> []"
proof -
  have "\<not> is_ws m" using assms ws_not_AD by blast
  then have d: "dropWhile is_ws (m # 41 # r) = m # 41 # r" by simp
  show ?thesis
    unfolding run_next_letter_mark d using assms by (simp add: run_letter_mark del: run.simps)
qed

lemma first_visible:
  assumes "u \<noteq> []" and "\<not> is_ws (last u)"
  shows "\<exists>y r. dropWhile is_ws (u @ v) = y # r @ v \<and> y \<in> set u \<and> set r \<subseteq> set u"
proof -
  have l: "last u \<in> set u" using assms(1) by simp
  then have e: "dropWhile is_ws (u @ v) = dropWhile is_ws u @ v"
    using assms(2) by (rule dropWhile_append1)
  have "dropWhile is_ws u \<noteq> []"
    using l assms(2) by (auto simp add: dropWhile_eq_Nil_conv)
  then obtain y r where yr: "dropWhile is_ws u = y # r" by (cases "dropWhile is_ws u") auto
  have "set (y # r) \<subseteq> set u"
    unfolding yr [symmetric] by (auto dest: set_dropWhileD)
  with e yr show ?thesis by auto
qed

lemma look_paren_fails_text:
  "40 \<notin> set t \<Longrightarrow> t = [] \<or> \<not> is_ws (last t) \<Longrightarrow>
   fails_along flag_i (Seq (Look next_paren_label) Eps) p t v"
proof (induction t arbitrary: p)
  case Nil
  show ?case by simp
next
  case (Cons x u)
  have nw: "\<not> is_ws (last (x # u))" using Cons.prems(2) by simp
  obtain y r where d: "dropWhile is_ws ((x # u) @ v) = y # r @ v" and y: "y \<in> set (x # u)"
    using first_visible [OF _ nw, of v] by blast
  from y Cons.prems(1) have "y \<noteq> 40" by auto
  with d have "run flag_i next_paren_label (MState p (x # u @ v) k) = []" for k
    by (intro paren_label_fail) simp_all
  moreover have "fails_along flag_i (Seq (Look next_paren_label) Eps) (Some x) u v"
  proof (rule Cons.IH)
    show "40 \<notin> set u" using Cons.prems(1) by simp
    show "u = [] \<or> \<not> is_ws (last u)" using nw by (cases u) auto
  qed
  ultimately show ?case by (simp add: run_Look_Eps del: run.simps)
qed

lemma look_mark_fails_text:
  "\<forall>c \<in> set t. c \<noteq> 41 \<and> c \<noteq> 46 \<Longrightarrow> t = [] \<or> \<not> is_ws (last t) \<Longrightarrow>
   v = [] \<or> (hd v \<noteq> 41 \<and> hd v \<noteq> 46) \<Longrightarrow>
   fails_along flag_i (Seq (Look next_letter_mark) Eps) p t v"
proof (induction t arbitrary: p)
  case Nil
  show ?case by simp
next
  case (Cons x u)
  have nw: "\<not> is_ws (last (x # u))" using Cons.prems(2) by simp
  obtain y r where d: "dropWhile is_ws ((x # u) @ v) = y # r @ v" and r: "set r \<subseteq> set (x # u)"
    using first_visible [OF _ nw, of v] by blast
  have "case r @ v of [] \<Rightarrow> True | z # _ \<Rightarrow> z \<noteq> 41 \<and> z \<noteq> 46"
  proof (cases r)
    case Nil
    with Cons.prems(3) show ?thesis by (cases v) auto
  next
    case (Cons z r')
    with r Cons.prems(1) show ?thesis by auto
  qed
  with d have "run flag_i next_letter_mark (MState p (x # u @ v) k) = []" for k
    by (intro letter_mark_fail) simp_all
  moreover have "fails_along flag_i (Seq (Look next_letter_mark) Eps) (Some x) u v"
  proof (rule Cons.IH)
    show "\<forall>c \<in> set u. c \<noteq> 41 \<and> c \<noteq> 46" using Cons.prems(1) by simp
    show "u = [] \<or> \<not> is_ws (last u)" using nw by (cases u) auto
    show "v = [] \<or> (hd v \<noteq> 41 \<and> hd v \<noteq> 46)" by (rule Cons.prems(3))
  qed
  ultimately show ?case by (simp add: run_Look_Eps del: run.simps)
qed

lemma look_mark_fails_sep:
  "fails_along flag_i (Seq (Look next_letter_mark) Eps) p [32, 40] (m # r)"
proof -
  have n40: "\<not> is_AD 40" by (simp add: is_AD_def)
  note nw40 = not_ws_40
  have a: "run flag_i next_letter_mark (MState q (32 # 40 # m # r) k) = []" for q k
    by (rule letter_mark_fail) (simp_all add: is_ws_32 nw40 n40)
  have b: "run flag_i next_letter_mark (MState q (40 # m # r) k) = []" for q k
    by (rule letter_mark_fail) (simp_all add: nw40 n40)
  show ?thesis by (simp add: run_Look_Eps a b del: run.simps)
qed

section \<open>The label patterns at a label\<close>

lemma labelPatterns_eq: "labelPatterns l = [pat_paren l, pat_spaced l, pat_loose l]"
  by (simp only: labelPatterns_unfold pat_paren_def pat_spaced_def pat_loose_def)

lemma exec_at:
  assumes "fails_along f r None pre v"
    and "run f r (MState (prev_after None pre) v None) = s1 # ss"
  shows "truthy_group1 (exec f r (pre @ v)) =
           (case cap s1 of None \<Rightarrow> None | Some c \<Rightarrow> if c = [] then None else Some c)"
proof -
  have "exec f r (pre @ v) = search f r (prev_after None pre) v (0 + length pre)"
    unfolding exec_def using assms(1) by (rule search_fails_along)
  also have "\<dots> = Some \<lparr>index = 0 + length pre,
                 matched = take (length v - length (rest s1)) v, group1 = cap s1\<rparr>"
    using assms(2) by (rule search_first)
  finally show ?thesis by (simp add: truthy_group1_def)
qed

lemma exec_nowhere:
  assumes "fails_along f r None u []"
    and "\<And>p. run f r (MState p [] None) = []"
  shows "exec f r u = None"
proof -
  have "exec f r (u @ []) = search f r (prev_after None u) [] (0 + length u)"
    unfolding exec_def using assms(1) by (rule search_fails_along)
  also have "\<dots> = None" using assms(2) by (rule search_Nil_none)
  finally show ?thesis by simp
qed

lemma takeWhile_sep: "\<not> is_ws (hd t) \<Longrightarrow> t \<noteq> [] \<Longrightarrow> takeWhile is_ws (32 # t @ post) = [32]"
  by (cases t) (simp_all add: is_ws_32)

lemma dropWhile_sep: "\<not> is_ws (hd t) \<Longrightarrow> t \<noteq> [] \<Longrightarrow> dropWhile is_ws (32 # t @ post) = t @ post"
  by (cases t) (simp_all add: is_ws_32)

lemma star_cap_first:
  assumes sc: "single_char f a P"
    and all: "\<forall>x \<in> set u. P x"
    and fl: "fails_along f K (Some 32) u v"
    and ok: "run f K (MState (prev_after (Some 32) u) v (Some u)) = s1 # ss"
    and u: "u \<noteq> []" "\<not> is_ws (hd u)"
  shows "\<exists>ss'. run f (Seq (Star ws) (Seq (Cap (LazyStar a)) K)) (MState q (32 # u @ v) None) = s1 # ss'"
proof -
  from lazy_cap_first [OF sc all fl ok]
  obtain ss1 where c: "run f (Seq (Cap (LazyStar a)) K) (MState (Some 32) (u @ v) None) = s1 # ss1"
    by blast
  have tw: "takeWhile is_ws (32 # u @ v) = [32]" using u(2) u(1) by (rule takeWhile_sep)
  have dw: "dropWhile is_ws (32 # u @ v) = u @ v" using u(2) u(1) by (rule dropWhile_sep)
  have pa: "prev_after q [32] = Some 32" by (simp add: prev_after_def)
  have "run f (Seq (Cap (LazyStar a)) K)
      (MState (prev_after q (takeWhile is_ws (32 # u @ v))) (dropWhile is_ws (32 # u @ v)) None)
      = s1 # ss1"
    unfolding tw dw pa by (rule c)
  then show ?thesis by (rule run_Star_first [OF single_ws])
qed

lemma paren_match:
  assumes t: "t \<noteq> []" "\<not> is_ws (hd t)" "\<not> is_ws (last t)" "40 \<notin> set t"
    and post: "post = [] \<or> (\<exists>m r. is_AD m \<and> post = 32 # 40 # m # 41 # r)"
  shows "\<exists>s1 ss. run flag_i (pat_paren l) (MState p (40 # letter_code l # 41 # 32 # t @ post) None) = s1 # ss
           \<and> cap s1 = Some t"
proof -
  let ?K = "Seq (Look next_paren_label) Eps"
  let ?s1 = "MState (prev_after (Some 32) t) post (Some t)"
  have "run flag_i next_paren_label ?s1 \<noteq> []"
    using post by (auto simp add: paren_label_end paren_label_ok simp del: run.simps)
  then have k: "run flag_i ?K ?s1 = ?s1 # []" by (simp add: run_Look_Eps del: run.simps)
  have fl: "fails_along flag_i ?K (Some 32) t post"
    using t(4) t(3) by (intro look_paren_fails_text) simp_all
  have all: "\<forall>x \<in> set t. x \<noteq> 40" using t(4) by auto
  from star_cap_first [OF single_not_open all fl k t(1,2)]
  obtain ss2 where "run flag_i (Seq (Star ws) (Seq (Cap (LazyStar (Cls True [Rng 40 40]))) ?K))
      (MState (Some 41) (32 # t @ post) None) = ?s1 # ss2" by blast
  then have "run flag_i (pat_paren l) (MState p (40 # letter_code l # 41 # 32 # t @ post) None) = ?s1 # ss2"
    unfolding pat_paren_def
    by (simp add: run_Seq_single [OF single_Lit_i] canon_40 canon_41 del: run.simps)
  then show ?thesis by simp
qed

lemma loose_match_last:
  assumes t: "t \<noteq> []" "\<not> is_ws (hd t)" "\<not> is_ws (last t)" "\<forall>c \<in> set t. c \<noteq> 41 \<and> c \<noteq> 46 \<and> c \<noteq> 10"
  shows "\<exists>s1 ss. run flag_i (pat_loose l) (MState p (letter_code l # 41 # 32 # t @ []) None) = s1 # ss
           \<and> cap s1 = Some t"
proof -
  let ?K = "Seq (Look next_letter_mark) Eps"
  let ?s1 = "MState (prev_after (Some 32) t) [] (Some t)"
  have k: "run flag_i ?K ?s1 = ?s1 # []"
    by (simp add: run_Look_Eps letter_mark_end del: run.simps)
  have fl: "fails_along flag_i ?K (Some 32) t []"
    using t(4) t(3) by (intro look_mark_fails_text) simp_all
  have all: "\<forall>x \<in> set t. x \<noteq> 10" using t(4) by auto
  from star_cap_first [OF single_not_nl all fl k t(1,2)]
  obtain ss2 where "run flag_i (Seq (Star ws) (Seq (Cap (LazyStar (Cls True [Rng 10 10]))) ?K))
      (MState (Some 41) (32 # t @ []) None) = ?s1 # ss2" by blast
  then have "run flag_i (pat_loose l) (MState p (letter_code l # 41 # 32 # t @ []) None) = ?s1 # ss2"
    unfolding pat_loose_def
    by (simp add: run_Seq_single [OF single_Lit_i] run_Seq_single [OF single_close] del: run.simps append_Nil2)
  then show ?thesis by simp
qed

lemma loose_match_next:
  assumes t: "t \<noteq> []" "\<not> is_ws (hd t)" "\<not> is_ws (last t)" "\<forall>c \<in> set t. c \<noteq> 41 \<and> c \<noteq> 46 \<and> c \<noteq> 10"
    and m: "is_AD m"
  shows "\<exists>s1 ss. run flag_i (pat_loose l)
            (MState p (letter_code l # 41 # 32 # (t @ [32, 40]) @ m # 41 # r) None) = s1 # ss
           \<and> cap s1 = Some (t @ [32, 40])"
proof -
  let ?K = "Seq (Look next_letter_mark) Eps"
  let ?u = "t @ [32, 40]"
  let ?v = "m # 41 # r"
  let ?s1 = "MState (prev_after (Some 32) ?u) ?v (Some ?u)"
  have "run flag_i next_letter_mark ?s1 \<noteq> []" using m by (rule letter_mark_ok)
  then have k: "run flag_i ?K ?s1 = ?s1 # []" by (simp add: run_Look_Eps del: run.simps)
  have f1: "fails_along flag_i ?K (Some 32) t ([32, 40] @ ?v)"
    using t(4) t(3) by (intro look_mark_fails_text) simp_all
  have f2: "fails_along flag_i ?K (prev_after (Some 32) t) [32, 40] ?v"
    by (rule look_mark_fails_sep)
  from f1 f2 have fl: "fails_along flag_i ?K (Some 32) ?u ?v"
    by (simp only: fails_along_append)
  have all: "\<forall>x \<in> set ?u. x \<noteq> 10" using t(4) by auto
  have u1: "?u \<noteq> []" by simp
  have u2: "\<not> is_ws (hd ?u)" using t(1,2) by simp
  from star_cap_first [OF single_not_nl all fl k u1 u2]
  obtain ss2 where "run flag_i (Seq (Star ws) (Seq (Cap (LazyStar (Cls True [Rng 10 10]))) ?K))
      (MState (Some 41) (32 # ?u @ ?v) None) = ?s1 # ss2" by blast
  then have "run flag_i (pat_loose l)
      (MState p (letter_code l # 41 # 32 # ?u @ ?v) None) = ?s1 # ss2"
    unfolding pat_loose_def
    by (simp add: run_Seq_single [OF single_Lit_i] run_Seq_single [OF single_close]
        del: run.simps append_assoc append.simps)
  then show ?thesis by simp
qed

section \<open>The label patterns before a label\<close>

lemma labeled_text_Cons: "labeled_text ((l, t) # zs) = seg l t @ follow zs"
  by (cases zs) (simp_all add: follow_def)

lemma labeled_text_split:
  "labeled_text (ys @ (l, t) # zs) = blocks ys @ seg l t @ follow zs"
proof (induction ys)
  case Nil
  show ?case by (simp add: blocks_def labeled_text_Cons)
next
  case (Cons y ys)
  obtain m t' where y: "y = (m, t')" by (cases y)
  have "labeled_text ((m, t') # ys @ (l, t) # zs) = seg m t' @ 32 # labeled_text (ys @ (l, t) # zs)"
    by (simp add: labeled_text_Cons follow_def)
  with Cons y show ?case by (simp add: blocks_def)
qed

lemma is_AD_letter: "is_AD (letter_code m)"
  by (cases m) (simp_all add: is_AD_def)

lemma follow_shape:
  "follow zs = [] \<or> (\<exists>m r. is_AD m \<and> follow zs = 32 # 40 # m # 41 # r)"
proof (cases zs)
  case Nil
  then show ?thesis by (simp add: follow_def)
next
  case (Cons z zs')
  obtain m t where "z = (m, t)" by (cases z)
  with Cons have "follow zs = 32 # 40 # letter_code m # 41 # 32 # t @ follow zs'"
    by (simp add: follow_def labeled_text_Cons seg_def)
  then show ?thesis using is_AD_letter by blast
qed

lemma canon_letter_eq: "canonicalize (letter_code m) = canonicalize (letter_code l) \<longleftrightarrow> m = l"
  by (cases m; cases l) (simp_all add: canonicalize_def)

lemma canon_not_letter:
  "c = 40 \<or> c = 41 \<or> c = 32 \<Longrightarrow> canonicalize c \<noteq> canonicalize (letter_code l)"
  by (cases l) (auto simp add: canonicalize_def)

lemma not_ws_letter: "\<not> is_ws (letter_code l)"
  by (cases l) (simp_all add: is_ws_def)

lemma not_ws_41: "\<not> is_ws 41"
  by (simp add: is_ws_def)

lemma paren_fails_plain: "40 \<notin> set u \<Longrightarrow> fails_along flag_i (pat_paren l) p u v"
  unfolding pat_paren_def
  by (rule fails_along_first [OF single_Lit_i]) (auto simp add: canon_40)

lemma paren_fails_label:
  "m \<noteq> l \<Longrightarrow> fails_along flag_i (pat_paren l) p [40, letter_code m, 41, 32] v"
proof -
  assume ml: "m \<noteq> l"
  have a: "run flag_i (pat_paren l) (MState q (40 # letter_code m # r) k) = []" for q r k
    unfolding pat_paren_def using ml
    by (simp add: run_Seq_single [OF single_Lit_i] canon_40 canon_letter_eq del: run.simps)
  have b: "x \<noteq> 40 \<Longrightarrow> run flag_i (pat_paren l) (MState q (x # r) k) = []" for q x r k
    unfolding pat_paren_def
    by (simp add: run_Seq_single [OF single_Lit_i] canon_40 del: run.simps)
  have c: "letter_code m \<noteq> 40" by (cases m) simp_all
  show ?thesis by (simp add: a b c del: run.simps)
qed

lemma paren_fails_blocks:
  "\<forall>(m, t) \<in> set ys. m \<noteq> l \<and> 40 \<notin> set t \<Longrightarrow> fails_along flag_i (pat_paren l) p (blocks ys) v"
proof (induction ys arbitrary: p)
  case Nil
  show ?case by (simp add: blocks_def)
next
  case (Cons y ys)
  obtain m t where y: "y = (m, t)" by (cases y)
  from Cons.prems y have ml: "m \<noteq> l" and t: "40 \<notin> set t"
    and rest: "\<forall>(m, t) \<in> set ys. m \<noteq> l \<and> 40 \<notin> set t" by auto
  have e: "blocks (y # ys) = [40, letter_code m, 41, 32] @ (t @ [32]) @ blocks ys"
    by (simp add: blocks_def y seg_def)
  have a: "fails_along flag_i (pat_paren l) q [40, letter_code m, 41, 32] w" for q w
    using ml by (rule paren_fails_label)
  have b: "fails_along flag_i (pat_paren l) q (t @ [32]) w" for q w
    using t by (intro paren_fails_plain) simp
  show ?case
    unfolding e using a b Cons.IH [OF rest]
    by (simp only: fails_along_append)
qed

lemma loose_fails_first:
  "\<forall>x \<in> set u. canonicalize x \<noteq> canonicalize (letter_code l) \<Longrightarrow>
   fails_along flag_i (pat_loose l) p u v"
  unfolding pat_loose_def
  by (rule fails_along_first [OF single_Lit_i]) auto

lemma loose_fails_text:
  "\<forall>c \<in> set t. c \<noteq> 41 \<and> c \<noteq> 46 \<Longrightarrow> v = [] \<or> (hd v \<noteq> 41 \<and> hd v \<noteq> 46) \<Longrightarrow>
   fails_along flag_i (pat_loose l) p t v"
proof (induction t arbitrary: p)
  case Nil
  show ?case by simp
next
  case (Cons x u)
  have "run flag_i (pat_loose l) (MState p (x # u @ v) k) = []" for k
  proof (cases "u @ v")
    case Nil
    then show ?thesis
      unfolding pat_loose_def
      by (simp add: run_Seq_single [OF single_Lit_i] run_Seq_single [OF single_close] del: run.simps)
  next
    case c: (Cons y w)
    have "y \<noteq> 41 \<and> y \<noteq> 46"
    proof (cases u)
      case Nil
      with c Cons.prems(2) show ?thesis by auto
    next
      case (Cons y' u')
      with c Cons.prems(1) show ?thesis by auto
    qed
    with c show ?thesis
      unfolding pat_loose_def
      by (simp add: run_Seq_single [OF single_Lit_i] run_Seq_single [OF single_close] del: run.simps)
  qed
  moreover have "fails_along flag_i (pat_loose l) (Some x) u v"
    using Cons.prems by (intro Cons.IH) simp_all
  ultimately show ?case by simp
qed

lemma loose_fails_blocks:
  "\<forall>(m, t) \<in> set ys. m \<noteq> l \<and> (\<forall>c \<in> set t. c \<noteq> 41 \<and> c \<noteq> 46) \<Longrightarrow>
   fails_along flag_i (pat_loose l) p (blocks ys) v"
proof (induction ys arbitrary: p)
  case Nil
  show ?case by (simp add: blocks_def)
next
  case (Cons y ys)
  obtain m t where y: "y = (m, t)" by (cases y)
  from Cons.prems y have ml: "m \<noteq> l" and t: "\<forall>c \<in> set t. c \<noteq> 41 \<and> c \<noteq> 46"
    and rest: "\<forall>(m, t) \<in> set ys. m \<noteq> l \<and> (\<forall>c \<in> set t. c \<noteq> 41 \<and> c \<noteq> 46)" by auto
  have e: "blocks (y # ys) = (([40, letter_code m, 41, 32] @ t) @ [32]) @ blocks ys"
    by (simp add: blocks_def y seg_def)
  have a: "fails_along flag_i (pat_loose l) q [40, letter_code m, 41, 32] w" for q w
    using ml by (intro loose_fails_first) (auto simp add: canon_letter_eq canon_not_letter)
  have b: "fails_along flag_i (pat_loose l) q t ([32] @ w)" for q w
    using t by (intro loose_fails_text) simp_all
  have c: "fails_along flag_i (pat_loose l) q [32] w" for q w
    by (intro loose_fails_first) (auto simp add: canon_not_letter)
  show ?case
    unfolding e using a b c Cons.IH [OF rest]
    by (simp only: fails_along_append)
qed

lemma loose_fails_open: "fails_along flag_i (pat_loose l) p [40] v"
  by (intro loose_fails_first) (auto simp add: canon_not_letter)

lemma spaced_run:
  "run flag_i (pat_spaced l) (MState p xs k) \<noteq> [] \<Longrightarrow>
   \<exists>x y z r. xs = x # y # z # r \<and> is_ws x \<and> canonicalize y = canonicalize (letter_code l)
     \<and> (z = 41 \<or> z = 46)"
  unfolding pat_spaced_def
  by (simp add: run_Seq_single [OF single_ws] run_Seq_single [OF single_Lit_i]
      run_Seq_single [OF single_close] split: list.splits if_splits del: run.simps)

lemma spaced_fails_first:
  "\<forall>x \<in> set u. \<not> is_ws x \<Longrightarrow> fails_along flag_i (pat_spaced l) p u v"
  unfolding pat_spaced_def
  by (rule fails_along_first [OF single_ws]) auto

lemma spaced_fails_text:
  "\<forall>c \<in> set t. c \<noteq> 41 \<and> c \<noteq> 46 \<Longrightarrow> v = [] \<or> (\<exists>r. v = 32 # r) \<Longrightarrow>
   fails_along flag_i (pat_spaced l) p t v"
proof (induction t arbitrary: p)
  case Nil
  show ?case by simp
next
  case (Cons x u)
  have "run flag_i (pat_spaced l) (MState p (x # u @ v) k) = []" for k
  proof (rule ccontr)
    assume "run flag_i (pat_spaced l) (MState p (x # u @ v) k) \<noteq> []"
    from spaced_run [OF this] obtain y z r where
      w: "u @ v = y # z # r" and y: "canonicalize y = canonicalize (letter_code l)"
      and z: "z = 41 \<or> z = 46" by auto
    show False
    proof (cases u)
      case Nil
      with w Cons.prems(2) have "y = 32" by auto
      with y canon_not_letter [of 32 l] show False by simp
    next
      case u: (Cons y' u')
      show False
      proof (cases u')
        case Nil
        with u w Cons.prems(2) have "z = 32" by auto
        with z show False by simp
      next
        case (Cons z' u'')
        with u w have "z \<in> set u" by auto
        with Cons.prems(1) z show False by auto
      qed
    qed
  qed
  moreover have "fails_along flag_i (pat_spaced l) (Some x) u v"
    using Cons.prems by (intro Cons.IH) simp_all
  ultimately show ?case by simp
qed

lemma spaced_fails_sep_text:
  assumes "1 < length t" and "\<forall>c \<in> set t. c \<noteq> 41 \<and> c \<noteq> 46"
  shows "fails_along flag_i (pat_spaced l) p [32] (t @ v)"
proof -
  obtain y z t' where t: "t = y # z # t'"
    using assms(1) by (cases t; cases "tl t") auto
  have "run flag_i (pat_spaced l) (MState p (32 # t @ v) k) = []" for k
  proof (rule ccontr)
    assume "run flag_i (pat_spaced l) (MState p (32 # t @ v) k) \<noteq> []"
    from spaced_run [OF this] t have "z = 41 \<or> z = 46" by auto
    with assms(2) t show False by auto
  qed
  then show ?thesis by simp
qed

lemma spaced_fails_sep_label:
  "fails_along flag_i (pat_spaced l) p [32] (40 # r)"
proof -
  have "run flag_i (pat_spaced l) (MState p (32 # 40 # r) k) = []" for k
  proof (rule ccontr)
    assume "run flag_i (pat_spaced l) (MState p (32 # 40 # r) k) \<noteq> []"
    from spaced_run [OF this] have "canonicalize 40 = canonicalize (letter_code l)" by auto
    with canon_not_letter [of 40 l] show False by simp
  qed
  then show ?thesis by simp
qed

lemma spaced_fails_labeled:
  "\<forall>(m, t) \<in> set es. 1 < length t \<and> (\<forall>c \<in> set t. c \<noteq> 41 \<and> c \<noteq> 46) \<Longrightarrow>
   fails_along flag_i (pat_spaced l) p (labeled_text es) []"
proof (induction es arbitrary: p)
  case Nil
  show ?case by simp
next
  case (Cons e zs)
  obtain m t where e: "e = (m, t)" by (cases e)
  from Cons.prems e have len: "1 < length t" and t: "\<forall>c \<in> set t. c \<noteq> 41 \<and> c \<noteq> 46"
    and rest: "\<forall>(m, t) \<in> set zs. 1 < length t \<and> (\<forall>c \<in> set t. c \<noteq> 41 \<and> c \<noteq> 46)" by auto
  have a: "fails_along flag_i (pat_spaced l) q [40, letter_code m, 41] w" for q w
    by (intro spaced_fails_first) (simp add: not_ws_40 not_ws_41 not_ws_letter)
  have b: "fails_along flag_i (pat_spaced l) q [32] (t @ w)" for q w
    using len t by (rule spaced_fails_sep_text)
  show ?case
  proof (cases zs)
    case Nil
    have s: "labeled_text (e # zs) = ([40, letter_code m, 41] @ [32]) @ t"
      by (simp add: e Nil seg_def)
    have c: "fails_along flag_i (pat_spaced l) q t []" for q
      using t by (intro spaced_fails_text) simp_all
    show ?thesis
      unfolding s using a b [of _ "[]"] c by (simp only: fails_along_append append_Nil2)
  next
    case (Cons z zs')
    obtain m' t' where z: "z = (m', t')" by (cases z)
    have lt: "labeled_text zs = 40 # tl (labeled_text zs)"
      by (simp add: Cons z labeled_text_Cons seg_def)
    have s: "labeled_text (e # zs) = ((([40, letter_code m, 41] @ [32]) @ t) @ [32]) @ labeled_text zs"
      by (simp add: e Cons seg_def)
    have c: "fails_along flag_i (pat_spaced l) q t ([32] @ w)" for q w
      using t by (intro spaced_fails_text) simp_all
    have d: "fails_along flag_i (pat_spaced l) q [32] (labeled_text zs @ [])" for q
      using spaced_fails_sep_label [of l q "tl (labeled_text zs)"] lt by simp
    show ?thesis
      unfolding s using a b c d Cons.IH [OF rest]
      by (simp only: fails_along_append append_assoc append_Nil2)
  qed
qed

lemma spaced_nowhere:
  assumes "\<forall>(m, t) \<in> set es. 1 < length t \<and> (\<forall>c \<in> set t. c \<noteq> 41 \<and> c \<noteq> 46)"
  shows "exec flag_i (pat_spaced l) (labeled_text es) = None"
proof (rule exec_nowhere)
  show "fails_along flag_i (pat_spaced l) None (labeled_text es) []"
    using assms by (rule spaced_fails_labeled)
  show "run flag_i (pat_spaced l) (MState p [] None) = []" for p
    using spaced_run [of l p "[]" None] by auto
qed

section \<open>Texts with plain labeled options\<close>

lemma trim_id: "xs \<noteq> [] \<Longrightarrow> \<not> is_ws (hd xs) \<Longrightarrow> \<not> is_ws (last xs) \<Longrightarrow> trim xs = xs"
proof -
  assume ne: "xs \<noteq> []" and h: "\<not> is_ws (hd xs)" and l: "\<not> is_ws (last xs)"
  from ne h have a: "dropWhile is_ws xs = xs" by (cases xs) auto
  from ne l have "\<not> is_ws (hd (rev xs))" by (simp add: hd_rev)
  with ne have b: "dropWhile is_ws (rev xs) = rev xs" by (cases "rev xs") auto
  show ?thesis by (simp add: trim_def a b)
qed

lemma tidy_append:
  "tidy xs \<Longrightarrow> tidy ys \<Longrightarrow> xs = [] \<or> \<not> is_ws (last xs) \<Longrightarrow> tidy (xs @ ys)"
proof (induction xs rule: tidy.induct)
  case 1
  then show ?case by simp
next
  case (2 x)
  then show ?case by (simp add: tidy_Cons)
next
  case (3 x y r)
  then show ?case by simp
qed

lemma tidy_sep: "tidy [32, 40]"
  by (simp add: not_ws_40)

lemma clean_optionText_id:
  assumes "tidy w" "w \<noteq> []" "is_ascii_letter (hd w)" "\<not> is_ws (last w)"
  shows "clean_optionText w = w"
proof -
  have a: "squeeze is_ws [32] w = w" using assms(1) by (rule squeeze_tidy)
  have b: "dropWhile (\<lambda>c. \<not> is_ascii_letter c) w = w" using assms(2,3) by (cases w) auto
  have "\<not> is_ws (hd w)" using assms(3) by (rule letter_not_ws)
  with assms(2,4) have c: "trim w = w" by (intro trim_id)
  show ?thesis
    by (simp only: clean_optionText_def strip_leading_nonletters_eq collapse_spaces_squeeze a b c)
qed

lemma plain_facts:
  assumes "plain_option_text t"
  shows "t \<noteq> []" "\<not> is_ws (hd t)" "\<not> is_ws (last t)" "40 \<notin> set t"
    "\<forall>c \<in> set t. c \<noteq> 41 \<and> c \<noteq> 46" "\<forall>c \<in> set t. c \<noteq> 41 \<and> c \<noteq> 46 \<and> c \<noteq> 10"
    "tidy t" "is_ascii_letter (hd t)" "5 < length t" "124 \<notin> set t"
proof -
  from assms have len: "5 < length t" and hd: "is_ascii_letter (hd t)"
    and last: "\<not> is_ws (last t)" and td: "tidy t"
    and chars: "\<forall>c \<in> set t. c \<noteq> 40 \<and> c \<noteq> 41 \<and> c \<noteq> 46 \<and> c \<noteq> 124"
    unfolding plain_option_text_def by blast+
  show "5 < length t" by (rule len)
  show "is_ascii_letter (hd t)" by (rule hd)
  show "\<not> is_ws (last t)" by (rule last)
  show "tidy t" by (rule td)
  from len show "t \<noteq> []" by (cases t) simp_all
  from hd show "\<not> is_ws (hd t)" by (rule letter_not_ws)
  from chars show "40 \<notin> set t" by blast
  from chars show "124 \<notin> set t" by blast
  from chars show "\<forall>c \<in> set t. c \<noteq> 41 \<and> c \<noteq> 46" by blast
  have "c \<noteq> 10" if "c \<in> set t" for c
  proof
    assume "c = 10"
    then have "is_ws c" by (simp add: is_ws_def)
    with td that have "c = 32" by (rule tidy_ws_32)
    with \<open>c = 10\<close> show False by simp
  qed
  with chars show "\<forall>c \<in> set t. c \<noteq> 41 \<and> c \<noteq> 46 \<and> c \<noteq> 10" by blast
qed

lemma plain_no_open: "plain_option_text t \<Longrightarrow> 40 \<notin> set t"
  by (rule plain_facts(4))

lemma plain_no_close: "plain_option_text t \<Longrightarrow> \<forall>c \<in> set t. c \<noteq> 41 \<and> c \<noteq> 46"
  by (rule plain_facts(5))

lemma plain_long: "plain_option_text t \<Longrightarrow> 1 < length t"
  using plain_facts(9) [of t] by simp

lemma labeled_option_at:
  assumes ys: "\<forall>(m, t') \<in> set ys. m \<noteq> l \<and> plain_option_text t'"
    and t: "plain_option_text t"
    and zs: "\<forall>(m, t') \<in> set zs. plain_option_text t'"
  shows "labeled_option (labeled_text (ys @ (l, t) # zs)) l =
           [\<lparr>opt_id = l, opt_text = (if zs = [] then t else t @ [32, 40])\<rparr>]"
proof -
  let ?c = "labeled_text (ys @ (l, t) # zs)"
  note tf = plain_facts [OF t]
  have c1: "?c = blocks ys @ 40 # letter_code l # 41 # 32 # t @ follow zs"
    by (simp add: labeled_text_split seg_def)
  \<comment> \<open>the pattern with parentheses\<close>
  have f1: "fails_along flag_i (pat_paren l) None (blocks ys) (40 # letter_code l # 41 # 32 # t @ follow zs)"
    using ys plain_no_open by (intro paren_fails_blocks) fastforce
  obtain s1 ss where r1:
    "run flag_i (pat_paren l) (MState (prev_after None (blocks ys))
        (40 # letter_code l # 41 # 32 # t @ follow zs) None) = s1 # ss" and k1: "cap s1 = Some t"
    using paren_match [OF tf(1,2,3,4) follow_shape] by blast
  have "truthy_group1 (exec flag_i (pat_paren l) ?c) =
      (case cap s1 of None \<Rightarrow> None | Some c \<Rightarrow> if c = [] then None else Some c)"
    unfolding c1 using f1 r1 by (rule exec_at)
  with k1 tf(1) have m1: "truthy_group1 (exec flag_i (pat_paren l) ?c) = Some t"
    by simp
  \<comment> \<open>the pattern with a space before the letter\<close>
  have "\<forall>(m, t') \<in> set (ys @ (l, t) # zs). 1 < length t' \<and> (\<forall>c \<in> set t'. c \<noteq> 41 \<and> c \<noteq> 46)"
    using ys t zs plain_no_close plain_long by fastforce
  then have "exec flag_i (pat_spaced l) ?c = None" by (rule spaced_nowhere)
  then have m2: "truthy_group1 (exec flag_i (pat_spaced l) ?c) = None"
    by (simp add: truthy_group1_def)
  \<comment> \<open>the pattern without anchor\<close>
  let ?w = "if zs = [] then t else t @ [32, 40]"
  have f3: "fails_along flag_i (pat_loose l) None (blocks ys @ [40]) v" for v
  proof -
    have "fails_along flag_i (pat_loose l) None (blocks ys) ([40] @ v)"
      using ys plain_no_close by (intro loose_fails_blocks) fastforce
    then show ?thesis using loose_fails_open by (simp only: fails_along_append)
  qed
  have m3: "truthy_group1 (exec flag_i (pat_loose l) ?c) = Some ?w"
  proof (cases "zs = []")
    case True
    have c3: "?c = (blocks ys @ [40]) @ letter_code l # 41 # 32 # t @ []"
      by (simp add: labeled_text_split seg_def follow_def True)
    obtain s3 ss where r3:
      "run flag_i (pat_loose l) (MState (prev_after None (blocks ys @ [40]))
          (letter_code l # 41 # 32 # t @ []) None) = s3 # ss" and k3: "cap s3 = Some t"
      using loose_match_last [OF tf(1,2,3,6)] by blast
    have "truthy_group1 (exec flag_i (pat_loose l) ?c) =
        (case cap s3 of None \<Rightarrow> None | Some c \<Rightarrow> if c = [] then None else Some c)"
      unfolding c3 using f3 r3 by (rule exec_at)
    with k3 tf(1) True show ?thesis by simp
  next
    case False
    with follow_shape [of zs] obtain m r where m: "is_AD m" and fz: "follow zs = 32 # 40 # m # 41 # r"
      by (auto simp add: follow_def)
    have c3: "?c = (blocks ys @ [40]) @ letter_code l # 41 # 32 # (t @ [32, 40]) @ m # 41 # r"
      by (simp add: c1 fz)
    obtain s3 ss where r3:
      "run flag_i (pat_loose l) (MState (prev_after None (blocks ys @ [40]))
          (letter_code l # 41 # 32 # (t @ [32, 40]) @ m # 41 # r) None) = s3 # ss"
      and k3: "cap s3 = Some (t @ [32, 40])"
      using loose_match_next [OF tf(1,2,3,6) m] by blast
    have "truthy_group1 (exec flag_i (pat_loose l) ?c) =
        (case cap s3 of None \<Rightarrow> None | Some c \<Rightarrow> if c = [] then None else Some c)"
      unfolding c3 using f3 r3 by (rule exec_at)
    with k3 False show ?thesis by simp
  qed
  \<comment> \<open>the longest capture and its clean-up\<close>
  have tt: "trim t = t" using tf(1,2,3) by (rule trim_id)
  have wne: "?w \<noteq> []" using tf(1) by simp
  have whd: "hd ?w = hd t" using tf(1) by simp
  have wlast: "\<not> is_ws (last ?w)" using tf(3) by (simp add: not_ws_40)
  have whd1: "\<not> is_ws (hd ?w)" unfolding whd by (rule tf(2))
  have whd2: "is_ascii_letter (hd ?w)" unfolding whd by (rule tf(8))
  have tw: "trim ?w = ?w"
    using wne whd1 wlast by (rule trim_id)
  have tw1: "trim (t @ [32, 40]) = t @ [32, 40]"
    using tf(1,2) by (intro trim_id) (simp_all add: not_ws_40)
  have "optionText_of ?c l = ?w"
    unfolding optionText_of_def labelPatterns_eq
    using tf(1) by (simp add: keep_longer_def m1 m2 m3 tt tw1 del: run.simps)
  moreover have "tidy ?w" using tf(7) tf(3) tidy_sep by (auto intro: tidy_append)
  then have "clean_optionText ?w = ?w"
    using wne whd2 wlast by (rule clean_optionText_id)
  moreover have "5 < length ?w" using tf(9) by simp
  ultimately show ?thesis by (simp only: labeled_option_value if_True)
qed

lemma labeled_text_hd: "labeled_text ((m, t) # zs) = 40 # tl (labeled_text ((m, t) # zs))"
  by (simp add: labeled_text_Cons seg_def)

lemma tidy_labeled:
  "\<forall>(m, t) \<in> set es. plain_option_text t \<Longrightarrow> tidy (labeled_text es)"
proof (induction es)
  case Nil
  show ?case by simp
next
  case (Cons e zs)
  obtain m t where e: "e = (m, t)" by (cases e)
  from Cons.prems e have t: "plain_option_text t"
    and rest: "\<forall>(m, t) \<in> set zs. plain_option_text t" by auto
  note tf = plain_facts [OF t]
  have tz: "tidy (labeled_text zs)" using rest by (rule Cons.IH)
  have tf2: "tidy (follow zs)"
  proof (cases zs)
    case Nil
    then show ?thesis by (simp add: follow_def)
  next
    case c: (Cons z zs')
    obtain m' t' where "z = (m', t')" by (cases z)
    with c have "labeled_text zs = 40 # tl (labeled_text zs)" using labeled_text_hd by simp
    then obtain r where r: "labeled_text zs = 40 # r" by blast
    with tz c show ?thesis by (simp add: follow_def tidy_Cons not_ws_40)
  qed
  have "tidy (t @ follow zs)" using tf(7) tf2 tf(3) by (intro tidy_append) simp_all
  moreover have "hd (t @ follow zs) = hd t" using tf(1) by simp
  ultimately have "tidy (40 # letter_code m # 41 # 32 # t @ follow zs)"
    using tf(1,2) by (simp add: tidy_Cons not_ws_40 not_ws_41 not_ws_letter)
  then show ?case by (simp add: e labeled_text_Cons seg_def)
qed

lemma letter_code_not_bar: "letter_code m \<noteq> 124"
  by (cases m) simp_all

lemma no_bar_labeled:
  "\<forall>(m, t) \<in> set es. plain_option_text t \<Longrightarrow> 124 \<notin> set (labeled_text es)"
proof (induction es)
  case Nil
  show ?case by simp
next
  case (Cons e zs)
  obtain m t where e: "e = (m, t)" by (cases e)
  from Cons.prems e have t: "plain_option_text t"
    and rest: "\<forall>(m, t) \<in> set zs. plain_option_text t" by auto
  have "124 \<notin> set (labeled_text zs)" using rest by (rule Cons.IH)
  then have "124 \<notin> set (follow zs)" by (simp add: follow_def)
  with plain_facts(10) [OF t] show ?case
    by (simp add: e labeled_text_Cons seg_def letter_code_not_bar)
qed

lemma normalize_tidy:
  assumes "tidy s" "124 \<notin> set s" "s \<noteq> []" "\<not> is_ws (hd s)" "\<not> is_ws (last s)"
  shows "normalize s = s"
proof -
  have nonl: "\<forall>c \<in> set s. \<not> c = 10"
  proof
    fix c assume c: "c \<in> set s"
    show "\<not> c = 10"
    proof
      assume "c = 10"
      then have "is_ws c" by (simp add: is_ws_def)
      with assms(1) c have "c = 32" by (rule tidy_ws_32)
      with \<open>c = 10\<close> show False by simp
    qed
  qed
  have s1: "squeeze (\<lambda>c. c = 10) [32] s = s" using nonl by (rule squeeze_none)
  have s2: "squeeze is_ws [32] s = s" using assms(1) by (rule squeeze_tidy)
  have s3: "map fix_bar s = s" using assms(2) by (rule map_fix_bar_id)
  have s4: "trim s = s" using assms(3,4,5) by (rule trim_id)
  show ?thesis by (simp only: normalize_eq s1 s2 s3 s4)
qed

lemma four_text:
  "labeled_text [(A, a), (B, b), (C, c), (D, d)] =
     js ''(A) '' @ a @ js '' (B) '' @ b @ js '' (C) '' @ c @ js '' (D) '' @ d"
  by (simp add: seg_def js_def)

lemma normalize_four_labeled:
  assumes "plain_option_text a" "plain_option_text b" "plain_option_text c" "plain_option_text d"
  shows "normalize (labeled_text [(A, a), (B, b), (C, c), (D, d)]) =
           labeled_text [(A, a), (B, b), (C, c), (D, d)]"
proof (rule normalize_tidy)
  let ?T = "labeled_text [(A, a), (B, b), (C, c), (D, d)]"
  show "tidy ?T" using assms by (intro tidy_labeled) simp
  show "124 \<notin> set ?T" using assms by (intro no_bar_labeled) simp
  show "?T \<noteq> []" by (simp add: seg_def)
  show "\<not> is_ws (hd ?T)" by (simp add: seg_def not_ws_40)
  have "d \<noteq> []" using assms(4) by (rule plain_facts(1))
  then have "last ?T = last d" by (simp add: seg_def)
  with plain_facts(3) [OF assms(4)] show "\<not> is_ws (last ?T)" by simp
qed

lemma labeled_options_four:
  assumes "plain_option_text a" "plain_option_text b" "plain_option_text c" "plain_option_text d"
  shows "labeled_options (labeled_text [(A, a), (B, b), (C, c), (D, d)]) =
           [\<lparr>opt_id = A, opt_text = a @ [32, 40]\<rparr>, \<lparr>opt_id = B, opt_text = b @ [32, 40]\<rparr>,
            \<lparr>opt_id = C, opt_text = c @ [32, 40]\<rparr>, \<lparr>opt_id = D, opt_text = d\<rparr>]"
proof -
  let ?T = "labeled_text [(A, a), (B, b), (C, c), (D, d)]"
  have oa: "labeled_option (labeled_text ([] @ (A, a) # [(B, b), (C, c), (D, d)])) A =
      [\<lparr>opt_id = A, opt_text = (if [(B, b), (C, c), (D, d)] = [] then a else a @ [32, 40])\<rparr>]"
    using assms by (intro labeled_option_at) simp_all
  have ob: "labeled_option (labeled_text ([(A, a)] @ (B, b) # [(C, c), (D, d)])) B =
      [\<lparr>opt_id = B, opt_text = (if [(C, c), (D, d)] = [] then b else b @ [32, 40])\<rparr>]"
    using assms by (intro labeled_option_at) simp_all
  have oc: "labeled_option (labeled_text ([(A, a), (B, b)] @ (C, c) # [(D, d)])) C =
      [\<lparr>opt_id = C, opt_text = (if [(D, d)] = [] then c else c @ [32, 40])\<rparr>]"
    using assms by (intro labeled_option_at) simp_all
  have od: "labeled_option (labeled_text ([(A, a), (B, b), (C, c)] @ (D, d) # [])) D =
      [\<lparr>opt_id = D, opt_text = (if ([]::(letter \<times> jsstring) list) = [] then d else d @ [32, 40])\<rparr>]"
    using assms by (intro labeled_option_at) simp_all
  from oa ob oc od show ?thesis
    by (simp add: labeled_options_def del: labeled_text.simps)
qed

section \<open>Evaluated examples\<close>

lemma labeled_alpha1:
  "labeled_options (normalize (js ''(A) alpha1'')) = [\<lparr>opt_id = A, opt_text = js ''alpha1''\<rparr>]"
  by code_simp

lemma captures_numbered:
  "trimmed_captures (js ''(A) 1. alpha1'') A = [js ''1. alpha1'', js ''1. alpha1'']"
  by code_simp

lemma squeeze_numbered:
  "trim (dropWhile (\<lambda>c. \<not> is_ascii_letter c) (squeeze is_ws [32] (js ''1. alpha1''))) = js ''alpha1''"
  by code_simp

lemma plain_examples:
  "plain_option_text (js ''Option one'')" "plain_option_text (js ''second'')"
  "plain_option_text (js ''the 3rd option'')" "plain_option_text (js ''delta4'')"
  by (simp_all add: plain_option_text_def js_def is_ascii_letter_def is_ws_def)

lemma parse_hi:
  "parseMCQFromText ascii_toLowerCase (js ''hi'') (js ''scan.png'') =
     ([WarnOnlyFoundLabeled 0, WarnMissingOptionIds [A, B, C, D],
       WarnQuestionTooShort (js ''scan.png'') [], WarnOnlyFoundOptions 0 (js ''scan.png'')],
      Some \<lparr>questionId = js ''Q_scan'', filename = js ''scan.png'', question = [],
            options = [], rawText = js ''hi''\<rparr>)"
  by code_simp

lemma parse_variant_hi:
  "parseMCQFromText_variant (js ''hi'') (js ''scan.png'') =
     ([WarnOnlyFoundLabeled 0,
       WarnQuestionTooShort (js ''scan.png'') (js ''hi''), WarnOnlyFoundOptions 0 (js ''scan.png'')],
      Some \<lparr>questionId = js ''Q_scan'', filename = js ''scan.png'', question = js ''hi'',
            options = [], rawText = js ''hi''\<rparr>)"
  by code_simp

lemma boundary_why: "boundary_before_options (js ''Why? Ok? end'') = []"
  by code_simp

lemma labeled_four:
  "map opt_id (labeled_options (normalize (js ''(A) wxyz (B) wxyz (C) wxyz (D) wxyzuv''))) = [A, B, C, D]"
  by code_simp

lemma normalize_four:
  "normalize (js ''(A) wxyz (B) wxyz (C) wxyz (D) wxyzuv'') = js ''(A) wxyz (B) wxyz (C) wxyz (D) wxyzuv''"
  by code_simp

lemma normalize_example: "normalize [32, 10, 10, 97, 9, 124, 32, 32, 98, 10] = js ''a I b''"
  by code_simp

lemma question_why:
  "questionText_of (normalize (js ''Why?'')) = js ''Why?''
   \<and> raw_question_text (textAfterQuestionId (normalize (js ''Why?''))) = js ''Why?''"
  by code_simp

section \<open>Further facts about the parser\<close>

lemma question_of_parse:
  "\<exists>q. snd (parseMCQFromText lc txt fname) = Some q
     \<and> question q = questionText_of (normalize txt)"
  by (simp add: parse_result)

lemma qmark_not_ws: "\<not> is_ws 63"
  by (simp add: is_ws_def)

lemma raw_question_text_none:
  "boundary_before_options t = [] \<Longrightarrow> 63 \<notin> set t \<Longrightarrow> length (trim (substring t 0 500)) \<le> 50
     \<Longrightarrow> raw_question_text t = []"
  by (simp add: raw_question_text_def question_mark_boundary_none raw_prefix_def Let_def)

lemma parse_variant_result:
  "snd (parseMCQFromText_variant txt fname) =
     Some \<lparr>questionId = questionId_of (normalize txt) fname, filename = fname,
           question = questionText_variant (normalize txt),
           options = all_options_variant (normalize txt), rawText = txt\<rparr>"
  by (simp add: parseMCQFromText_variant_def Let_def)

section \<open>The claims\<close>

text \<open>
  C2. For every letter and every normalized text, the labeled-option pass keeps, among the
  trimmed texts captured by the three patterns of the letter, one of greatest length (the
  empty text when no pattern captures anything). It replaces every run of whitespace of
  this text by one space, removes the characters before its first ASCII letter and trims
  it; it adds an option for the letter, with the text so obtained, if and only if this text
  has more than 5 characters, and it produces at most one option per letter.
\<close>

theorem labeled_option_selection:
  "(\<forall>t \<in> set (trimmed_captures cleanText l). length t \<le> length (optionText_of cleanText l))
   \<and> (optionText_of cleanText l = [] \<or> optionText_of cleanText l \<in> set (trimmed_captures cleanText l))
   \<and> filter (\<lambda>opt. opt_id opt = l) (labeled_options cleanText) =
       (if length (trim (dropWhile (\<lambda>c. \<not> is_ascii_letter c)
                     (squeeze is_ws [32] (optionText_of cleanText l)))) > 5
        then [\<lparr>opt_id = l,
               opt_text = trim (dropWhile (\<lambda>c. \<not> is_ascii_letter c)
                            (squeeze is_ws [32] (optionText_of cleanText l)))\<rparr>]
        else [])
   \<and> length (filter (\<lambda>opt. opt_id opt = l) (labeled_options cleanText)) \<le> 1"
  using optionText_longest [of cleanText l]
  by (simp add: filter_id_labeled labeled_option_value clean_optionText_eq)

theorem labeled_option_selection_witness:
  "trimmed_captures (js ''(A) 1. alpha1'') A = [js ''1. alpha1'', js ''1. alpha1'']
   \<and> optionText_of (js ''(A) 1. alpha1'') A = js ''1. alpha1''
   \<and> filter (\<lambda>opt. opt_id opt = A) (labeled_options (js ''(A) 1. alpha1''))
       = [\<lparr>opt_id = A, opt_text = js ''alpha1''\<rparr>]"
proof -
  have ne: "optionText_of (js ''(A) 1. alpha1'') A \<noteq> []"
    by code_simp
  have len: "5 < length (js ''alpha1'')" by (simp add: js_def)
  from labeled_option_selection [of "js ''(A) 1. alpha1''" A] ne
  have o: "optionText_of (js ''(A) 1. alpha1'') A = js ''1. alpha1''"
    by (simp only: captures_numbered) simp
  from labeled_option_selection [of "js ''(A) 1. alpha1''" A] o len
  show ?thesis
    by (simp only: captures_numbered o squeeze_numbered) simp
qed

text \<open>
  C7. For every input text and filename, the options of the question returned by
  \<open>parseMCQFromText\<close> are at most 4, have pairwise different ids and are sorted in ascending
  order of their ids.
\<close>

theorem options_invariant:
  "\<exists>q. snd (parseMCQFromText toLowerCase txt fname) = Some q
     \<and> length (options q) \<le> 4
     \<and> distinct (map opt_id (options q))
     \<and> sorted (map (\<lambda>opt. letter_code (opt_id opt)) (options q))"
  by (simp add: parse_result all_options_length all_options_distinct all_options_sorted)

theorem options_invariant_witness:
  "\<exists>q. snd (parseMCQFromText ascii_toLowerCase (js ''(A) alpha1'') (js ''scan.png'')) = Some q
     \<and> length (options q) \<le> 4
     \<and> distinct (map opt_id (options q))
     \<and> sorted (map (\<lambda>opt. letter_code (opt_id opt)) (options q))"
  by (rule options_invariant)

text \<open>
  C10. For every input, every option produced by the labeled-option pass is in the options
  of the question returned, with the same id and text: the options of the result whose id is
  not a missing id are exactly the labeled options, in the same order. The fallback only
  adds options for missing ids.
\<close>

theorem labeled_options_kept:
  "\<exists>q. snd (parseMCQFromText toLowerCase txt fname) = Some q
     \<and> set (labeled_options (normalize txt)) \<subseteq> set (options q)
     \<and> filter (\<lambda>opt. opt_id opt \<notin> set (missingIds_of (labeled_options (normalize txt))))
          (options q) = labeled_options (normalize txt)"
  by (simp add: parse_result labeled_subset_all_options filter_found_all_options)

theorem labeled_options_kept_witness:
  "\<exists>q. snd (parseMCQFromText ascii_toLowerCase (js ''(A) alpha1'') (js ''scan.png'')) = Some q
     \<and> \<lparr>opt_id = A, opt_text = js ''alpha1''\<rparr> \<in> set (options q)"
  using labeled_options_kept [of ascii_toLowerCase "js ''(A) alpha1''" "js ''scan.png''"]
  by (auto simp add: labeled_alpha1)

text \<open>
  C1, as amended. For every text of the form \<open>(A) a (B) b (C) c (D) d\<close> whose four option
  texts are plain (each has more than 5 characters, starts with a letter, does not end with
  whitespace, has single spaces as its only whitespace and none of the characters \<open>(\<close>,
  \<open>)\<close>, \<open>.\<close> and \<open>|\<close>), the text is normalized and the labeled-option pass yields exactly 4
  options with the ids A, B, C, D in that order; the text of each option begins with the
  labeled text, and the text of option D is the labeled text.
\<close>

theorem four_labeled_options:
  assumes "plain_option_text a" "plain_option_text b" "plain_option_text c" "plain_option_text d"
  shows "normalize (js ''(A) '' @ a @ js '' (B) '' @ b @ js '' (C) '' @ c @ js '' (D) '' @ d)
           = js ''(A) '' @ a @ js '' (B) '' @ b @ js '' (C) '' @ c @ js '' (D) '' @ d
         \<and> (\<exists>ra rb rc.
              labeled_options (js ''(A) '' @ a @ js '' (B) '' @ b @ js '' (C) '' @ c @ js '' (D) '' @ d)
                = [\<lparr>opt_id = A, opt_text = a @ ra\<rparr>, \<lparr>opt_id = B, opt_text = b @ rb\<rparr>,
                   \<lparr>opt_id = C, opt_text = c @ rc\<rparr>, \<lparr>opt_id = D, opt_text = d\<rparr>])"
  using normalize_four_labeled [OF assms] labeled_options_four [OF assms]
  unfolding four_text by blast

theorem four_labeled_options_witness:
  "plain_option_text (js ''Option one'') \<and> plain_option_text (js ''second'')
   \<and> plain_option_text (js ''the 3rd option'') \<and> plain_option_text (js ''delta4'')
   \<and> (\<exists>ra rb rc.
        labeled_options (js ''(A) Option one (B) second (C) the 3rd option (D) delta4'')
          = [\<lparr>opt_id = A, opt_text = js ''Option one'' @ ra\<rparr>,
             \<lparr>opt_id = B, opt_text = js ''second'' @ rb\<rparr>,
             \<lparr>opt_id = C, opt_text = js ''the 3rd option'' @ rc\<rparr>,
             \<lparr>opt_id = D, opt_text = js ''delta4''\<rparr>])"
proof -
  have e: "js ''(A) '' @ js ''Option one'' @ js '' (B) '' @ js ''second'' @ js '' (C) ''
             @ js ''the 3rd option'' @ js '' (D) '' @ js ''delta4''
           = js ''(A) Option one (B) second (C) the 3rd option (D) delta4''"
    by (simp add: js_def)
  from four_labeled_options [OF plain_examples] plain_examples show ?thesis
    unfolding e by blast
qed

text \<open>
  The claim as stated fails: the text \<open>(A) foo (B) bar (C) baz (D) qux\<close> is normalized and
  the labeled-option pass yields no option for it.
\<close>

theorem labeled_foo_counterexample:
  "normalize (js ''(A) foo (B) bar (C) baz (D) qux'') = js ''(A) foo (B) bar (C) baz (D) qux''
   \<and> labeled_options (js ''(A) foo (B) bar (C) baz (D) qux'') = []"
  by code_simp

text \<open>
  C3, as amended. When the boundary-before-options strategy yields no text and the remaining
  text contains a question mark, the question-mark fallback yields the trimmed longest
  prefix of the remaining text that ends with a question mark, that is the prefix up to the
  last question mark; this text is not empty.
\<close>

theorem question_mark_fallback:
  "63 \<notin> set suf \<Longrightarrow> boundary_before_options (pre @ 63 # suf) = [] \<Longrightarrow>
     raw_question_text (pre @ 63 # suf) = trim (pre @ [63])
     \<and> trim (pre @ [63]) \<noteq> []"
proof -
  assume suf: "63 \<notin> set suf" and b: "boundary_before_options (pre @ 63 # suf) = []"
  have ne: "trim (pre @ [63]) \<noteq> []"
    unfolding trim_Nil_iff using qmark_not_ws by auto
  have "question_mark_boundary (pre @ 63 # suf) = trim (pre @ [63])"
    using suf by (rule question_mark_boundary_found)
  with b ne show ?thesis by (simp add: raw_question_text_def)
qed

theorem question_mark_fallback_witness:
  "boundary_before_options (js ''Why? Ok? end'') = []
   \<and> raw_question_text (js ''Why? Ok? end'') = js ''Why? Ok?''"
proof -
  have s: "js ''Why? Ok? end'' = js ''Why? Ok'' @ 63 # js '' end''" by (simp add: js_def)
  have n: "63 \<notin> set (js '' end'')" by (simp add: js_def)
  have t: "trim (js ''Why? Ok'' @ [63]) = js ''Why? Ok?''" by code_simp
  from question_mark_fallback [OF n, of "js ''Why? Ok''"] boundary_why s t
  show ?thesis by simp
qed

text \<open>
  The claim as stated fails: for \<open>a? b?\<close> the fallback yields \<open>a? b?\<close>, not the prefix \<open>a?\<close>
  that ends at the first question mark.
\<close>

theorem question_mark_counterexample:
  "boundary_before_options (js ''a? b?'') = []
   \<and> question_mark_boundary (js ''a? b?'') = js ''a? b?''
   \<and> question_mark_boundary (js ''a? b?'') \<noteq> js ''a?''
   \<and> map_option question (snd (parseMCQFromText ascii_toLowerCase (js ''a? b?'') (js ''scan.png'')))
       = Some (js ''a? b?'')"
  by code_simp

text \<open>
  C4, as amended. The question of the result is empty exactly when the text selected by the
  chain of strategies has no ASCII letter; in particular it is empty when none of the
  strategies accepts a text: the trimmed boundary prefix has at most 50 characters, the
  remaining text has no question mark and its trimmed prefix of 500 characters has at most
  50 characters.
\<close>

theorem question_empty_iff:
  "\<exists>q. snd (parseMCQFromText toLowerCase txt fname) = Some q
     \<and> (question q = [] \<longleftrightarrow>
          (\<forall>c \<in> set (raw_question_text (textAfterQuestionId (normalize txt))). \<not> is_ascii_letter c))
     \<and> (boundary_before_options (textAfterQuestionId (normalize txt)) = []
          \<and> 63 \<notin> set (textAfterQuestionId (normalize txt))
          \<and> length (trim (substring (textAfterQuestionId (normalize txt)) 0 500)) \<le> 50
        \<longrightarrow> question q = [])"
proof -
  let ?t = "textAfterQuestionId (normalize txt)"
  have a: "questionText_of (normalize txt) = [] \<longleftrightarrow>
          (\<forall>c \<in> set (raw_question_text ?t). \<not> is_ascii_letter c)"
    unfolding questionText_of_def by (rule clean_empty_iff)
  have b: "questionText_of (normalize txt) = []"
    if "boundary_before_options ?t = []" "63 \<notin> set ?t" "length (trim (substring ?t 0 500)) \<le> 50"
  proof -
    from that have "raw_question_text ?t = []" by (rule raw_question_text_none)
    with a show ?thesis by simp
  qed
  from a b show ?thesis by (simp add: parse_result)
qed

theorem question_empty_iff_witness:
  "\<exists>q. snd (parseMCQFromText ascii_toLowerCase (js ''Why?'') (js ''scan.png'')) = Some q
     \<and> question q = js ''Why?''
     \<and> 87 \<in> set (raw_question_text (textAfterQuestionId (normalize (js ''Why?''))))
     \<and> is_ascii_letter 87"
proof -
  have l: "is_ascii_letter 87" by (simp add: is_ascii_letter_def)
  have m: "87 \<in> set (js ''Why?'')" by (simp add: js_def)
  from question_empty_iff [of ascii_toLowerCase "js ''Why?''" "js ''scan.png''"] question_why l m
  show ?thesis by (auto simp add: parse_result)
qed

text \<open>The claim as stated fails: for the text \<open>hi\<close> the question of the result is empty.\<close>

theorem question_empty_counterexample:
  "map_option question (snd (parseMCQFromText ascii_toLowerCase (js ''hi'') (js ''scan.png''))) = Some []"
  by (simp add: parse_hi)

text \<open>
  C5. The text normalizer is idempotent: normalizing a normalized string does not change it.
\<close>

theorem normalize_idempotent: "normalize (normalize s) = normalize s"
  by (rule normalize_twice)

theorem normalize_idempotent_witness:
  "normalize (normalize [32, 10, 10, 97, 9, 124, 32, 32, 98, 10]) = js ''a I b''"
  using normalize_idempotent [of "[32, 10, 10, 97, 9, 124, 32, 32, 98, 10]"]
  by (simp only: normalize_example)

text \<open>
  C6. Without an identifier in the text the question id is \<open>Q_\<close> followed by the filename
  without the first occurrence of \<open>.png\<close>, which need not be the extension: the file
  \<open>a.pngb.png\<close> gets the id \<open>Q_ab.png\<close>, and not \<open>Q_a.pngb\<close>.
\<close>

theorem questionId_first_png_removed:
  "map_option questionId (snd (parseMCQFromText ascii_toLowerCase (js ''hi'') (js ''a.pngb.png'')))
     = Some (js ''Q_ab.png'')"
  by code_simp

text \<open>
  C8. For every input \<open>parseMCQFromText\<close> returns a question, with the filename and the raw
  text given, and logs no parse error; a question text that is empty or shorter than 20
  characters, and fewer than 2 options, each produce a warning only.
\<close>

theorem parse_returns_question:
  "\<exists>q. snd (parseMCQFromText toLowerCase txt fname) = Some q
     \<and> filename q = fname \<and> rawText q = txt
     \<and> ErrorParsing fname \<notin> set (fst (parseMCQFromText toLowerCase txt fname))
     \<and> (question q = [] \<or> length (question q) < 20
          \<longrightarrow> WarnQuestionTooShort fname (question q) \<in> set (fst (parseMCQFromText toLowerCase txt fname)))
     \<and> (length (options q) < 2
          \<longrightarrow> WarnOnlyFoundOptions (length (options q)) fname
                \<in> set (fst (parseMCQFromText toLowerCase txt fname)))"
  by (auto simp add: parseMCQFromText_def Let_def validation_diagnostics_def gap_diagnostics_def)

theorem parse_returns_question_witness:
  "\<exists>q. snd (parseMCQFromText ascii_toLowerCase (js ''hi'') (js ''scan.png'')) = Some q
     \<and> question q = [] \<and> options q = []
     \<and> WarnQuestionTooShort (js ''scan.png'') [] \<in> set (fst (parseMCQFromText ascii_toLowerCase (js ''hi'') (js ''scan.png'')))
     \<and> WarnOnlyFoundOptions 0 (js ''scan.png'') \<in> set (fst (parseMCQFromText ascii_toLowerCase (js ''hi'') (js ''scan.png'')))"
  using parse_returns_question [of ascii_toLowerCase "js ''hi''" "js ''scan.png''"]
  by (simp add: parse_hi)

text \<open>
  C9, as amended. For every input the parsers of the two extractor files return questions
  with the same question id, filename and raw text, and with the same options whenever the
  labeled-option pass finds all four options.
\<close>

theorem variants_agree:
  "\<exists>q q'. snd (parseMCQFromText toLowerCase txt fname) = Some q
     \<and> snd (parseMCQFromText_variant txt fname) = Some q'
     \<and> questionId q = questionId q' \<and> filename q = filename q' \<and> rawText q = rawText q'
     \<and> (length (labeled_options (normalize txt)) = 4 \<longrightarrow> options q = options q')"
  by (simp add: parse_result parse_variant_result all_options_def all_options_variant_def Let_def)

theorem variants_agree_witness:
  "\<exists>q q'. snd (parseMCQFromText ascii_toLowerCase (js ''(A) wxyz (B) wxyz (C) wxyz (D) wxyzuv'') (js ''scan.png'')) = Some q
     \<and> snd (parseMCQFromText_variant (js ''(A) wxyz (B) wxyz (C) wxyz (D) wxyzuv'') (js ''scan.png'')) = Some q'
     \<and> map opt_id (options q) = [A, B, C, D] \<and> options q = options q'"
proof -
  have "length (map opt_id (labeled_options (normalize (js ''(A) wxyz (B) wxyz (C) wxyz (D) wxyzuv'')))) = 4"
    by (simp only: labeled_four) simp
  then have four: "length (labeled_options (normalize (js ''(A) wxyz (B) wxyz (C) wxyz (D) wxyzuv''))) = 4"
    by simp
  from variants_agree [of ascii_toLowerCase "js ''(A) wxyz (B) wxyz (C) wxyz (D) wxyzuv''" "js ''scan.png''"]
    four labeled_four
  show ?thesis by (auto simp add: parse_result all_options_def Let_def)
qed

text \<open>
  The claim as stated fails: for the text \<open>hi\<close> the first parser returns an empty question
  text and the second one the question text \<open>hi\<close>.
\<close>

theorem variants_differ_counterexample:
  "snd (parseMCQFromText ascii_toLowerCase (js ''hi'') (js ''scan.png''))
     \<noteq> snd (parseMCQFromText_variant (js ''hi'') (js ''scan.png''))"
  unfolding parse_hi parse_variant_hi by (simp add: js_def)

end
